theory Spec2Isabelle
  imports Main "HOL-Library.Word"
begin

section \<open>The thread pool of src/thread_pool.cc\<close>

text \<open>
  The file defines a basic pool (\<^verbatim>\<open>ThreadPool\<close>, workers \<^verbatim>\<open>ThreadPoolWorker\<close>) and a
  work-stealing pool (\<^verbatim>\<open>WorkStealingThreadPool\<close>, workers \<^verbatim>\<open>WorkStealingWorker\<close>).
  Every member function of \<^verbatim>\<open>ThreadPool\<close> below runs its body under
  \<^verbatim>\<open>task_queue_lock_\<close>; such a body is one function on the pool state, returning the new
  state together with what it did to the two condition variables.  A condition wait
  releases the lock, so a function that waits is split at the wait: what the other
  threads did to the pool in the meantime is an argument of the model.

  The class declarations (thread_pool.h) are not part of the sources.  Field names are
  those of the .cc file without the trailing underscore.  \<^verbatim>\<open>size_t\<close> is a word of any
  width \<open>'w\<close>, \<^verbatim>\<open>uint64_t\<close> a 64-bit word; a \<^verbatim>\<open>Task*\<close> is \<open>'a option\<close> with
  \<open>None\<close> for \<^verbatim>\<open>NULL\<close>, and the queue holds the (non-null) tasks handed to
  \<^verbatim>\<open>AddTask\<close>.
\<close>

subsection \<open>Data\<close>

type_synonym uint64_t = "64 word"

text \<open>\<^verbatim>\<open>task_queue_condition_\<close> and \<^verbatim>\<open>completion_condition_\<close>.\<close>

datatype cond = task_queue_condition | completion_condition

text \<open>What a function does besides changing the pool's fields.\<close>

datatype 'a event =
    Signal cond
  | Broadcast cond
  | CondWait cond
  | Run 'a
  | Finalize 'a

text \<open>
  \<open>threads\<close> is the vector \<^verbatim>\<open>threads_\<close> in construction order.  A worker is represented
  by the one field of it that the pool reads, \<^verbatim>\<open>WorkStealingWorker::task_\<close>; a plain
  \<^verbatim>\<open>ThreadPoolWorker\<close> has no such field and its entry stays \<open>None\<close>.
\<close>

type_synonym 'a worker = "'a option"

record (overloaded) ('a, 'w) ThreadPool =
  tasks :: "'a list"
  threads :: "'a worker list"
  started :: bool
  shutting_down :: bool
  waiting_count :: "'w word"
  start_time :: uint64_t
  total_wait_time :: uint64_t

record (overloaded) ('a, 'w) WorkStealingThreadPool = "('a, 'w) ThreadPool" +
  steal_index :: "'w word"

text \<open>The result of a function that may block on a condition variable.\<close>

datatype ('r, 's) outcome = Returned 'r 's | Blocked 's

subsection \<open>ThreadPool\<close>

definition GetThreadCount :: "('a, 'w::len, 'm) ThreadPool_scheme \<Rightarrow> 'w word" where
  "GetThreadCount p = of_nat (length (threads p))"

definition IsShuttingDown :: "('a, 'w::len, 'm) ThreadPool_scheme \<Rightarrow> bool" where
  "IsShuttingDown p = shutting_down p"

text \<open>\<^verbatim>\<open>AddTask\<close>, lines 45-52.\<close>

definition AddTask ::
  "'a \<Rightarrow> ('a, 'w::len, 'm) ThreadPool_scheme \<Rightarrow> ('a, 'w, 'm) ThreadPool_scheme \<times> 'a event list" where
  "AddTask task p =
     (let p' = p\<lparr>tasks := tasks p @ [task]\<rparr>
      in (p', if waiting_count p' \<noteq> 0 then [Signal task_queue_condition] else []))"

text \<open>
  The constructor, lines 54-65.  Its initialiser list names \<^verbatim>\<open>started_\<close>,
  \<^verbatim>\<open>shutting_down_\<close> and \<^verbatim>\<open>waiting_count_\<close> only; \<^verbatim>\<open>start_time_\<close> and
  \<^verbatim>\<open>total_wait_time_\<close> are not written, so the values they hold afterwards are
  arguments of the model (\<open>st0\<close>, \<open>twt0\<close>).  The loop creates \<open>num_threads\<close> workers.
\<close>

definition ThreadPool_new :: "nat \<Rightarrow> uint64_t \<Rightarrow> uint64_t \<Rightarrow> ('a, 'w::len) ThreadPool" where
  "ThreadPool_new num_threads st0 twt0 =
     \<lparr>tasks = [], threads = replicate num_threads None,
      started = False, shutting_down = False, waiting_count = 0,
      start_time = st0, total_wait_time = twt0\<rparr>"

text \<open>The destructor's critical section, lines 67-76.\<close>

definition ThreadPool_delete ::
  "('a, 'w::len, 'm) ThreadPool_scheme \<Rightarrow> ('a, 'w, 'm) ThreadPool_scheme \<times> 'a event list" where
  "ThreadPool_delete p =
     (p\<lparr>shutting_down := True\<rparr>,
      [Broadcast task_queue_condition, Broadcast completion_condition])"

text \<open>\<^verbatim>\<open>StartWorkers\<close>, lines 81-87; \<open>now\<close> is what \<^verbatim>\<open>NanoTime()\<close> returns.\<close>

definition StartWorkers ::
  "uint64_t \<Rightarrow> ('a, 'w::len, 'm) ThreadPool_scheme \<Rightarrow> ('a, 'w, 'm) ThreadPool_scheme \<times> 'a event list" where
  "StartWorkers now p =
     (p\<lparr>started := True, start_time := now, total_wait_time := 0\<rparr>,
      [Broadcast task_queue_condition])"

text \<open>\<^verbatim>\<open>StopWorkers\<close>, lines 89-92.\<close>

definition StopWorkers :: "('a, 'w::len, 'm) ThreadPool_scheme \<Rightarrow> ('a, 'w, 'm) ThreadPool_scheme" where
  "StopWorkers p = p\<lparr>started := False\<rparr>"

text \<open>\<^verbatim>\<open>TryGetTaskLocked\<close>, lines 123-130.\<close>

definition TryGetTaskLocked ::
  "('a, 'w::len, 'm) ThreadPool_scheme \<Rightarrow> 'a option \<times> ('a, 'w, 'm) ThreadPool_scheme" where
  "TryGetTaskLocked p =
     (if started p \<and> tasks p \<noteq> []
      then (case tasks p of task # rest \<Rightarrow> (Some task, p\<lparr>tasks := rest\<rparr>) | [] \<Rightarrow> (None, p))
      else (None, p))"

text \<open>\<^verbatim>\<open>TryGetTask\<close>, lines 118-121.\<close>

definition TryGetTask ::
  "('a, 'w::len, 'm) ThreadPool_scheme \<Rightarrow> 'a option \<times> ('a, 'w, 'm) ThreadPool_scheme" where
  "TryGetTask p = TryGetTaskLocked p"

text \<open>\<^verbatim>\<open>GetTaskCount\<close>, lines 146-149.\<close>

definition GetTaskCount :: "('a, 'w::len, 'm) ThreadPool_scheme \<Rightarrow> 'w word" where
  "GetTaskCount p = of_nat (length (tasks p))"

text \<open>
  \<^verbatim>\<open>GetTask\<close>, lines 94-116.  \<open>GetTask_sleep\<close> is lines 102-106, up to the wait;
  \<open>GetTask_wake\<close> is lines 109-111, after it, with \<open>wait_start\<close> and \<open>wait_end\<close> the two
  clock readings.  \<^verbatim>\<open>start_time_\<close> and \<^verbatim>\<open>total_wait_time_\<close> are read after the wait.
\<close>

definition GetTask_sleep ::
  "('a, 'w::len, 'm) ThreadPool_scheme \<Rightarrow> ('a, 'w, 'm) ThreadPool_scheme \<times> 'a event list" where
  "GetTask_sleep p =
     (let p' = p\<lparr>waiting_count := waiting_count p + 1\<rparr>
      in (p', (if waiting_count p' = GetThreadCount p' \<and> tasks p' = []
               then [Broadcast completion_condition] else [])
              @ [CondWait task_queue_condition]))"

definition GetTask_wake ::
  "uint64_t \<Rightarrow> uint64_t \<Rightarrow> ('a, 'w::len, 'm) ThreadPool_scheme \<Rightarrow> ('a, 'w, 'm) ThreadPool_scheme" where
  "GetTask_wake wait_start wait_end p =
     p\<lparr>total_wait_time := total_wait_time p + (wait_end - max wait_start (start_time p)),
       waiting_count := waiting_count p - 1\<rparr>"

text \<open>
  The loop of \<^verbatim>\<open>GetTask\<close>.  Each element of the first argument is one wait on
  \<^verbatim>\<open>task_queue_condition_\<close>: the clock at \<open>wait_start\<close>, what the other threads do to
  the pool while this one sleeps with the lock released, and the clock at \<open>wait_end\<close>.
  When the list is used up and the thread has to wait again, it stays blocked.
\<close>

fun GetTask ::
  "(uint64_t \<times> (('a, 'w::len, 'm) ThreadPool_scheme \<Rightarrow> ('a, 'w, 'm) ThreadPool_scheme) \<times> uint64_t) list
   \<Rightarrow> ('a, 'w, 'm) ThreadPool_scheme
   \<Rightarrow> ('a option, ('a, 'w, 'm) ThreadPool_scheme) outcome \<times> 'a event list" where
  "GetTask waits p =
     (if IsShuttingDown p then (Returned None p, [])
      else (case TryGetTaskLocked p of
              (Some task, p') \<Rightarrow> (Returned (Some task) p', [])
            | (None, p') \<Rightarrow>
                (let (p1, evs) = GetTask_sleep p'
                 in (case waits of
                       [] \<Rightarrow> (Blocked p1, evs)
                     | (wait_start, others, wait_end) # waits' \<Rightarrow>
                         (let (r, evs') = GetTask waits' (GetTask_wake wait_start wait_end (others p1))
                          in (r, evs @ evs'))))))"

declare GetTask.simps [simp del]

text \<open>
  \<^verbatim>\<open>Wait\<close>, lines 132-144.  The first loop runs and finalises tasks on the calling
  thread, with the lock released.  Each element of \<open>runs\<close> is what happens to the pool
  (through the task itself and through the other threads) while one task is run and
  finalised; when \<open>runs\<close> is used up the caller is still inside the task it popped.
  The second loop waits on \<^verbatim>\<open>completion_condition_\<close>, each element of \<open>waits\<close>
  being what the other threads do during one wait.  As in the source, the body never
  reads \<open>do_work\<close>.
\<close>

datatype ('r, 's) wait_outcome = Done 'r 's | Waiting 's | InTask 's

fun Wait_completion ::
  "(('a, 'w::len, 'm) ThreadPool_scheme \<Rightarrow> ('a, 'w, 'm) ThreadPool_scheme) list
   \<Rightarrow> ('a, 'w, 'm) ThreadPool_scheme
   \<Rightarrow> (unit, ('a, 'w, 'm) ThreadPool_scheme) wait_outcome \<times> 'a event list" where
  "Wait_completion waits p =
     (if \<not> shutting_down p \<and> (waiting_count p \<noteq> GetThreadCount p \<or> tasks p \<noteq> [])
      then (case waits of
              [] \<Rightarrow> (Waiting p, [CondWait completion_condition])
            | others # waits' \<Rightarrow>
                (let (r, evs) = Wait_completion waits' (others p)
                 in (r, CondWait completion_condition # evs)))
      else (Done () p, []))"

fun Wait ::
  "bool
   \<Rightarrow> (('a, 'w::len, 'm) ThreadPool_scheme \<Rightarrow> ('a, 'w, 'm) ThreadPool_scheme) list
   \<Rightarrow> (('a, 'w, 'm) ThreadPool_scheme \<Rightarrow> ('a, 'w, 'm) ThreadPool_scheme) list
   \<Rightarrow> ('a, 'w, 'm) ThreadPool_scheme
   \<Rightarrow> (unit, ('a, 'w, 'm) ThreadPool_scheme) wait_outcome \<times> 'a event list" where
  "Wait do_work runs waits p =
     (case TryGetTask p of
        (Some task, p') \<Rightarrow>
          (case runs of
             [] \<Rightarrow> (InTask p', [Run task])
           | others # runs' \<Rightarrow>
               (let (r, evs) = Wait do_work runs' waits (others p')
                in (r, Run task # Finalize task # evs)))
      | (None, p') \<Rightarrow> Wait_completion waits p')"

declare Wait_completion.simps [simp del]
declare Wait.simps [simp del]

text \<open>
  The critical sections of \<^verbatim>\<open>task_queue_lock_\<close>, as operations on the pool.  A call of
  \<^verbatim>\<open>GetTask\<close> is the section from its entry to its return or first wait
  (\<open>GetTaskEnter\<close>) and, after each wait, the section from the wake-up to the return or
  the next wait (\<open>GetTaskWake\<close>, with the two clock readings around that wait).
\<close>

datatype 'a pool_op =
    OpAddTask 'a
  | OpStartWorkers uint64_t
  | OpStopWorkers
  | OpTryGetTask
  | OpGetTaskCount
  | OpGetTaskEnter
  | OpGetTaskWake uint64_t uint64_t
  | OpDelete

fun outcome_state :: "('r, 's) outcome \<Rightarrow> 's" where
  "outcome_state (Returned r s) = s"
| "outcome_state (Blocked s) = s"

fun exec_op :: "'a pool_op \<Rightarrow> ('a, 'w::len, 'm) ThreadPool_scheme \<Rightarrow> ('a, 'w, 'm) ThreadPool_scheme" where
  "exec_op (OpAddTask task) p = fst (AddTask task p)"
| "exec_op (OpStartWorkers now) p = fst (StartWorkers now p)"
| "exec_op OpStopWorkers p = StopWorkers p"
| "exec_op OpTryGetTask p = snd (TryGetTask p)"
| "exec_op OpGetTaskCount p = p"
| "exec_op OpGetTaskEnter p = outcome_state (fst (GetTask [] p))"
| "exec_op (OpGetTaskWake wait_start wait_end) p =
     outcome_state (fst (GetTask [] (GetTask_wake wait_start wait_end p)))"
| "exec_op OpDelete p = fst (ThreadPool_delete p)"

fun exec :: "'a pool_op list \<Rightarrow> ('a, 'w::len, 'm) ThreadPool_scheme \<Rightarrow> ('a, 'w, 'm) ThreadPool_scheme" where
  "exec [] p = p"
| "exec (op # ops) p = exec ops (exec_op op p)"

text \<open>
  A run in which no wait's contribution wraps: it has no \<^verbatim>\<open>StartWorkers\<close>, every
  wake-up reads a clock that is not before \<open>max wait_start start_time\<close>, and the sum
  stays below \<open>2 ^ 64\<close>.
\<close>

fun no_wrap_op :: "'a pool_op \<Rightarrow> ('a, 'w::len, 'm) ThreadPool_scheme \<Rightarrow> bool" where
  "no_wrap_op (OpStartWorkers now) p = False"
| "no_wrap_op (OpGetTaskWake wait_start wait_end) p =
     (max wait_start (start_time p) \<le> wait_end \<and>
      unat (total_wait_time p) + unat (wait_end - max wait_start (start_time p)) < 2 ^ 64)"
| "no_wrap_op op p = True"

fun no_wrap_run :: "'a pool_op list \<Rightarrow> ('a, 'w::len, 'm) ThreadPool_scheme \<Rightarrow> bool" where
  "no_wrap_run [] p = True"
| "no_wrap_run (op # ops) p = (no_wrap_op op p \<and> no_wrap_run ops (exec_op op p))"

subsection \<open>WorkStealingThreadPool\<close>

text \<open>
  The constructor, lines 231-239: the base constructor with no threads, the cursor at
  0, then \<open>num_threads\<close> workers, each with \<^verbatim>\<open>task_\<close> \<^verbatim>\<open>NULL\<close> (line 154).
\<close>

definition WorkStealingThreadPool_new ::
  "nat \<Rightarrow> uint64_t \<Rightarrow> uint64_t \<Rightarrow> ('a, 'w::len) WorkStealingThreadPool" where
  "WorkStealingThreadPool_new num_threads st0 twt0 =
     \<lparr>tasks = [], threads = replicate num_threads None,
      started = False, shutting_down = False, waiting_count = 0,
      start_time = st0, total_wait_time = twt0, steal_index = 0\<rparr>"

text \<open>
  \<^verbatim>\<open>FindTaskToStealFrom\<close>, lines 241-259.  \<open>FindTaskToStealFrom_body\<close> is one
  iteration of the loop up to the test of \<open>task\<close>, lines 245-251: it advances the
  cursor and reads the candidate's \<^verbatim>\<open>task_\<close>.  The first argument of the loop is the
  number of iterations left, \<open>thread_count - i\<close>.  Reading \<^verbatim>\<open>threads_[steal_index_]\<close>
  outside the vector is undefined in C++ and an error of the model, as is a failed
  \<^verbatim>\<open>CHECK\<close>, which aborts the process.  The function takes \<open>self\<close>, here the index
  of the calling worker in \<^verbatim>\<open>threads_\<close>, and never uses it.
\<close>

datatype error = IndexOutOfRange | CheckFailed

definition FindTaskToStealFrom_body ::
  "'w::len word \<Rightarrow> ('a, 'w, 'm) WorkStealingThreadPool_scheme
   \<Rightarrow> (error + 'a option) \<times> ('a, 'w, 'm) WorkStealingThreadPool_scheme" where
  "FindTaskToStealFrom_body thread_count p =
     (let p1 = p\<lparr>steal_index := steal_index p + 1\<rparr>;
          p2 = (if steal_index p1 \<ge> thread_count
                then p1\<lparr>steal_index := steal_index p1 - thread_count\<rparr> else p1)
      in if unat (steal_index p2) < length (threads p2)
         then (Inr (threads p2 ! unat (steal_index p2)), p2)
         else (Inl IndexOutOfRange, p2))"

fun FindTaskToStealFrom_loop ::
  "nat \<Rightarrow> 'w::len word \<Rightarrow> ('a, 'w, 'm) WorkStealingThreadPool_scheme
   \<Rightarrow> (error + 'a option) \<times> ('a, 'w, 'm) WorkStealingThreadPool_scheme" where
  "FindTaskToStealFrom_loop 0 thread_count p = (Inr None, p)"
| "FindTaskToStealFrom_loop (Suc left) thread_count p =
     (case FindTaskToStealFrom_body thread_count p of
        (Inr (Some task), p2) \<Rightarrow> (Inr (Some task), p2)
      | (Inr None, p2) \<Rightarrow> FindTaskToStealFrom_loop left thread_count p2
      | (Inl e, p2) \<Rightarrow> (Inl e, p2))"

definition FindTaskToStealFrom ::
  "nat \<Rightarrow> ('a, 'w::len, 'm) WorkStealingThreadPool_scheme
   \<Rightarrow> (error + 'a option) \<times> ('a, 'w, 'm) WorkStealingThreadPool_scheme" where
  "FindTaskToStealFrom self p =
     FindTaskToStealFrom_loop (unat (GetThreadCount p)) (GetThreadCount p) p"

subsection \<open>WorkStealingWorker\<close>

text \<open>
  \<^verbatim>\<open>WorkStealingWorker::Run\<close>, lines 158-225, as a transition system: several workers
  run the loop at once, so each worker has a program counter and its local variables,
  and one step of a worker is one access to shared state.  The steps of the workers
  interleave in any order; the write at line 176, made without the lock, is a step like
  the others.  The program counters, with the lines they stand before:
  \<^item> \<open>AtGetTask\<close>: the call of \<^verbatim>\<open>GetTask\<close> (162); \<open>InGetTaskWait\<close>: the wait inside it (108);
  \<^item> \<open>AtCheckNoTask\<close>: \<^verbatim>\<open>CHECK(task_ == NULL)\<close> (166);
  \<^item> \<open>AtLockRegister\<close>, \<open>AtIncOwn\<close>, \<open>AtPublish\<close>, \<open>AtUnlockRegister\<close>: the critical
    section 167-171 (lock, \<^verbatim>\<open>++ref_count_\<close>, \<^verbatim>\<open>task_ = stealing_task\<close>, unlock);
  \<^item> \<open>AtRun\<close>: \<^verbatim>\<open>stealing_task->Run(self)\<close> (172); \<open>AtClear\<close>: \<^verbatim>\<open>task_ = NULL\<close> (176),
    outside any lock;
  \<^item> \<open>AtLoopTest\<close>: the test \<^verbatim>\<open>GetTaskCount(self) == 0\<close> (183);
  \<^item> \<open>AtLockFind\<close>, \<open>AtScan\<close>, \<open>AtFound\<close>, \<open>AtNotFound\<close>, \<open>AtUnlockFind\<close>: the critical
    section 186-197 (lock; the loop of \<^verbatim>\<open>FindTaskToStealFrom\<close>, one iteration a step;
    \<^verbatim>\<open>CHECK_NE\<close> and \<^verbatim>\<open>ref_count_++\<close> of the victim, or \<^verbatim>\<open>break\<close>; unlock);
  \<^item> \<open>AtStealFrom\<close>: \<^verbatim>\<open>stealing_task->StealFrom(self, steal_from_task)\<close> (201);
  \<^item> \<open>AtLockVictim\<close>, \<open>AtDecVictim\<close>, \<open>AtUnlockVictim\<close>: the critical section 203-207
    (\<^verbatim>\<open>finalize = !--steal_from_task->ref_count_\<close>); \<open>AtFinalizeVictim\<close>: lines 209-211;
  \<^item> \<open>AtLockOwn\<close>, \<open>AtDecOwn\<close>, \<open>AtUnlockOwn\<close>: the critical section 215-219
    (\<^verbatim>\<open>finalize = !--stealing_task->ref_count_\<close>); \<open>AtFinalizeOwn\<close>: lines 221-223;
  \<^item> \<open>Exited\<close>: after the loop, \<^verbatim>\<open>GetTask\<close> having returned \<^verbatim>\<open>NULL\<close>.
\<close>

datatype pc =
    AtGetTask | InGetTaskWait | AtCheckNoTask
  | AtLockRegister | AtIncOwn | AtPublish | AtUnlockRegister
  | AtRun | AtClear | AtLoopTest
  | AtLockFind | AtScan | AtFound | AtNotFound | AtUnlockFind
  | AtStealFrom
  | AtLockVictim | AtDecVictim | AtUnlockVictim | AtFinalizeVictim
  | AtLockOwn | AtDecOwn | AtUnlockOwn | AtFinalizeOwn
  | Exited

text \<open>The local variables of \<^verbatim>\<open>Run\<close>; \<open>scan_left\<close> is \<open>thread_count - i\<close> inside
  \<^verbatim>\<open>FindTaskToStealFrom\<close>.\<close>

record 'a frame =
  pc :: pc
  stealing_task :: "'a option"
  steal_from_task :: "'a option"
  finalize :: bool
  scan_left :: nat

text \<open>
  The running system: the pool, the holder of \<^verbatim>\<open>work_steal_lock_\<close> (a worker's index),
  \<^verbatim>\<open>ref_count_\<close> of every task, and the workers' frames.  Worker \<open>w\<close> is the one at
  \<open>threads ! w\<close>.  \<open>finalized\<close> counts the calls of \<^verbatim>\<open>Finalize\<close> on each task and
  \<open>submitted\<close> holds the tasks handed to \<^verbatim>\<open>AddTask\<close> so far; the code has neither.
  \<open>failure\<close> is set when a \<^verbatim>\<open>CHECK\<close> fails or the vector is read out of range.

  Modelled from the spec: \<^verbatim>\<open>WorkStealingTask\<close> is declared in thread_pool.h, which is
  not among the sources; \<^verbatim>\<open>ref_count_\<close> is the spec's ``\<open>ref_count\<close> integer'', an
  \<open>int\<close>, and it is 0 for a task no worker has taken yet.
\<close>

record (overloaded) ('a, 'w) system =
  pool :: "('a, 'w) WorkStealingThreadPool"
  work_steal_lock :: "nat option"
  ref_count :: "'a \<Rightarrow> int"
  frames :: "nat \<Rightarrow> 'a frame"
  finalized :: "'a \<Rightarrow> nat"
  submitted :: "'a set"
  failure :: "error option"

text \<open>
  One step of worker \<open>w\<close>.  A worker that wants the lock while another holds it has no
  step, as has one that has left the loop.  \<open>wait_start\<close> and \<open>wait_end\<close> are the clock
  readings around a wait in \<^verbatim>\<open>GetTask\<close>; a wait may end at any time.  \<^verbatim>\<open>Run\<close> and
  \<^verbatim>\<open>StealFrom\<close> are the task's own code: what they do to the pool is done by the
  actions below.
\<close>

definition set_frame :: "nat \<Rightarrow> 'a frame \<Rightarrow> ('a, 'w::len) system \<Rightarrow> ('a, 'w) system" where
  "set_frame w f s = s\<lparr>frames := (frames s)(w := f)\<rparr>"

definition lock_step :: "nat \<Rightarrow> pc \<Rightarrow> ('a, 'w::len) system \<Rightarrow> ('a, 'w) system option" where
  "lock_step w next s =
     (case work_steal_lock s of
        None \<Rightarrow> Some (set_frame w ((frames s w)\<lparr>pc := next\<rparr>) (s\<lparr>work_steal_lock := Some w\<rparr>))
      | Some holder \<Rightarrow> None)"

definition unlock_step :: "nat \<Rightarrow> pc \<Rightarrow> ('a, 'w::len) system \<Rightarrow> ('a, 'w) system option" where
  "unlock_step w next s =
     Some (set_frame w ((frames s w)\<lparr>pc := next\<rparr>) (s\<lparr>work_steal_lock := None\<rparr>))"

definition after_GetTask ::
  "nat \<Rightarrow> ('a option, ('a, 'w::len) WorkStealingThreadPool) outcome \<Rightarrow> ('a, 'w) system \<Rightarrow> ('a, 'w) system" where
  "after_GetTask w r s =
     (case r of
        Returned None p \<Rightarrow> set_frame w ((frames s w)\<lparr>pc := Exited\<rparr>) (s\<lparr>pool := p\<rparr>)
      | Returned (Some task) p \<Rightarrow>
          set_frame w ((frames s w)\<lparr>pc := AtCheckNoTask, stealing_task := Some task\<rparr>) (s\<lparr>pool := p\<rparr>)
      | Blocked p \<Rightarrow> set_frame w ((frames s w)\<lparr>pc := InGetTaskWait\<rparr>) (s\<lparr>pool := p\<rparr>))"

definition Run_step ::
  "nat \<Rightarrow> uint64_t \<Rightarrow> uint64_t \<Rightarrow> ('a, 'w::len) system \<Rightarrow> ('a, 'w) system option" where
  "Run_step w wait_start wait_end s =
     (let f = frames s w in
      case pc f of
        AtGetTask \<Rightarrow> Some (after_GetTask w (fst (GetTask [] (pool s))) s)
      | InGetTaskWait \<Rightarrow>
          Some (after_GetTask w (fst (GetTask [] (GetTask_wake wait_start wait_end (pool s)))) s)
      | AtCheckNoTask \<Rightarrow>
          (if threads (pool s) ! w = None then Some (set_frame w (f\<lparr>pc := AtLockRegister\<rparr>) s)
           else Some (s\<lparr>failure := Some CheckFailed\<rparr>))
      | AtLockRegister \<Rightarrow> lock_step w AtIncOwn s
      | AtIncOwn \<Rightarrow>
          (case stealing_task f of
             None \<Rightarrow> None
           | Some task \<Rightarrow>
               Some (set_frame w (f\<lparr>pc := AtPublish\<rparr>)
                      (s\<lparr>ref_count := (ref_count s)(task := ref_count s task + 1)\<rparr>)))
      | AtPublish \<Rightarrow>
          Some (set_frame w (f\<lparr>pc := AtUnlockRegister\<rparr>)
                 (s\<lparr>pool := (pool s)\<lparr>threads := (threads (pool s))[w := stealing_task f]\<rparr>\<rparr>))
      | AtUnlockRegister \<Rightarrow> unlock_step w AtRun s
      | AtRun \<Rightarrow> Some (set_frame w (f\<lparr>pc := AtClear\<rparr>) s)
      | AtClear \<Rightarrow>
          Some (set_frame w (f\<lparr>pc := AtLoopTest\<rparr>)
                 (s\<lparr>pool := (pool s)\<lparr>threads := (threads (pool s))[w := None]\<rparr>\<rparr>))
      | AtLoopTest \<Rightarrow>
          (if GetTaskCount (pool s) = 0
           then Some (set_frame w (f\<lparr>pc := AtLockFind, steal_from_task := None\<rparr>) s)
           else Some (set_frame w (f\<lparr>pc := AtLockOwn\<rparr>) s))
      | AtLockFind \<Rightarrow>
          (case work_steal_lock s of
             None \<Rightarrow>
               Some (set_frame w (f\<lparr>pc := AtScan, scan_left := unat (GetThreadCount (pool s))\<rparr>)
                      (s\<lparr>work_steal_lock := Some w\<rparr>))
           | Some holder \<Rightarrow> None)
      | AtScan \<Rightarrow>
          (case scan_left f of
             0 \<Rightarrow> Some (set_frame w (f\<lparr>pc := AtNotFound, steal_from_task := None\<rparr>) s)
           | Suc left \<Rightarrow>
               (case FindTaskToStealFrom_body (GetThreadCount (pool s)) (pool s) of
                  (Inr (Some task), p) \<Rightarrow>
                    Some (set_frame w (f\<lparr>pc := AtFound, steal_from_task := Some task\<rparr>) (s\<lparr>pool := p\<rparr>))
                | (Inr None, p) \<Rightarrow> Some (set_frame w (f\<lparr>scan_left := left\<rparr>) (s\<lparr>pool := p\<rparr>))
                | (Inl e, p) \<Rightarrow> Some (s\<lparr>pool := p, failure := Some e\<rparr>)))
      | AtFound \<Rightarrow>
          (case steal_from_task f of
             None \<Rightarrow> None
           | Some victim \<Rightarrow>
               if stealing_task f = Some victim then Some (s\<lparr>failure := Some CheckFailed\<rparr>)
               else Some (set_frame w (f\<lparr>pc := AtUnlockFind\<rparr>)
                      (s\<lparr>ref_count := (ref_count s)(victim := ref_count s victim + 1)\<rparr>)))
      | AtNotFound \<Rightarrow> unlock_step w AtLockOwn s
      | AtUnlockFind \<Rightarrow> unlock_step w AtStealFrom s
      | AtStealFrom \<Rightarrow> Some (set_frame w (f\<lparr>pc := AtLockVictim\<rparr>) s)
      | AtLockVictim \<Rightarrow> lock_step w AtDecVictim s
      | AtDecVictim \<Rightarrow>
          (case steal_from_task f of
             None \<Rightarrow> None
           | Some victim \<Rightarrow>
               Some (set_frame w (f\<lparr>pc := AtUnlockVictim, finalize := (ref_count s victim - 1 = 0)\<rparr>)
                      (s\<lparr>ref_count := (ref_count s)(victim := ref_count s victim - 1)\<rparr>)))
      | AtUnlockVictim \<Rightarrow> unlock_step w AtFinalizeVictim s
      | AtFinalizeVictim \<Rightarrow>
          (case steal_from_task f of
             None \<Rightarrow> None
           | Some victim \<Rightarrow>
               Some (set_frame w (f\<lparr>pc := AtLoopTest\<rparr>)
                      (if finalize f then s\<lparr>finalized := (finalized s)(victim := Suc (finalized s victim))\<rparr>
                       else s)))
      | AtLockOwn \<Rightarrow> lock_step w AtDecOwn s
      | AtDecOwn \<Rightarrow>
          (case stealing_task f of
             None \<Rightarrow> None
           | Some task \<Rightarrow>
               Some (set_frame w (f\<lparr>pc := AtUnlockOwn, finalize := (ref_count s task - 1 = 0)\<rparr>)
                      (s\<lparr>ref_count := (ref_count s)(task := ref_count s task - 1)\<rparr>)))
      | AtUnlockOwn \<Rightarrow> unlock_step w AtFinalizeOwn s
      | AtFinalizeOwn \<Rightarrow>
          (case stealing_task f of
             None \<Rightarrow> None
           | Some task \<Rightarrow>
               Some (set_frame w (f\<lparr>pc := AtGetTask\<rparr>)
                      (if finalize f then s\<lparr>finalized := (finalized s)(task := Suc (finalized s task))\<rparr>
                       else s)))
      | Exited \<Rightarrow> None)"

text \<open>
  What can happen next: a step of a worker, or a call from outside of \<^verbatim>\<open>AddTask\<close>
  (with a task not handed over before: a task is given to the pool once),
  \<^verbatim>\<open>StartWorkers\<close>, \<^verbatim>\<open>StopWorkers\<close>, one round of the first loop of \<^verbatim>\<open>Wait\<close> (the
  caller takes a task, runs it and finalises it), or the destructor's critical section.
  Nothing happens after a failure.
\<close>

datatype 'a action =
    Worker nat uint64_t uint64_t
  | CallAddTask 'a
  | CallStartWorkers uint64_t
  | CallStopWorkers
  | CallWaitTask
  | CallDelete

fun system_step :: "'a action \<Rightarrow> ('a, 'w::len) system \<Rightarrow> ('a, 'w) system option" where
  "system_step (Worker w wait_start wait_end) s =
     (if failure s = None \<and> w < length (threads (pool s)) then Run_step w wait_start wait_end s else None)"
| "system_step (CallAddTask task) s =
     (if failure s = None \<and> task \<notin> submitted s
      then Some (s\<lparr>pool := fst (AddTask task (pool s)), submitted := insert task (submitted s)\<rparr>)
      else None)"
| "system_step (CallStartWorkers now) s =
     (if failure s = None then Some (s\<lparr>pool := fst (StartWorkers now (pool s))\<rparr>) else None)"
| "system_step CallStopWorkers s =
     (if failure s = None then Some (s\<lparr>pool := StopWorkers (pool s)\<rparr>) else None)"
| "system_step CallWaitTask s =
     (if failure s = None
      then (case TryGetTask (pool s) of
              (Some task, p) \<Rightarrow>
                Some (s\<lparr>pool := p, finalized := (finalized s)(task := Suc (finalized s task))\<rparr>)
            | (None, p) \<Rightarrow> Some (s\<lparr>pool := p\<rparr>))
      else None)"
| "system_step CallDelete s =
     (if failure s = None then Some (s\<lparr>pool := fst (ThreadPool_delete (pool s))\<rparr>) else None)"

text \<open>
  The system after the constructor (lines 231-239, 151-156): no worker has a task, the
  lock is free.
\<close>

definition initial_frame :: "'a frame" where
  "initial_frame = \<lparr>pc = AtGetTask, stealing_task = None, steal_from_task = None,
      finalize = False, scan_left = 0\<rparr>"

definition initial_system :: "nat \<Rightarrow> uint64_t \<Rightarrow> uint64_t \<Rightarrow> ('a, 'w::len) system" where
  "initial_system num_threads st0 twt0 =
     \<lparr>pool = WorkStealingThreadPool_new num_threads st0 twt0, work_steal_lock = None,
      ref_count = (\<lambda>task. 0), frames = (\<lambda>w. initial_frame), finalized = (\<lambda>task. 0),
      submitted = {}, failure = None\<rparr>"

text \<open>The states the system can be in, and the state after a list of actions.\<close>

fun run_actions :: "'a action list \<Rightarrow> ('a, 'w::len) system \<Rightarrow> ('a, 'w) system option" where
  "run_actions [] s = Some s"
| "run_actions (a # as) s = (case system_step a s of None \<Rightarrow> None | Some s' \<Rightarrow> run_actions as s')"

inductive reachable :: "nat \<Rightarrow> ('a, 'w::len) system \<Rightarrow> bool" for num_threads where
  initial: "reachable num_threads (initial_system num_threads st0 twt0)"
| step: "reachable num_threads s \<Longrightarrow> system_step a s = Some s' \<Longrightarrow> reachable num_threads s'"

subsection \<open>References held by the workers\<close>

text \<open>
  \<open>total n g f\<close> sums \<open>f\<close> over the frames of the workers below \<open>n\<close>.  A worker holds a
  reference to its own task from the increment at line 169 to the decrement at line
  218, and to its victim from the increment at line 193 to the decrement at line 206
  (\<open>holds\<close>).  Before line 169 it owns a task no count knows of (\<open>pre_owner\<close>); after a
  decrement that reached 0 it is about to finalise the task (\<open>pending\<close>).  The other
  sets of program counters: \<open>locked\<close> inside a critical section of \<^verbatim>\<open>work_steal_lock_\<close>,
  \<open>published\<close> while \<^verbatim>\<open>task_\<close> may be set, \<open>calm\<close> where the owner of a task can be while
  another worker holds the lock and has just read that task from the owner's \<^verbatim>\<open>task_\<close>,
  \<open>active\<close> from taking a task to the decrement of its count.
\<close>

definition total :: "nat \<Rightarrow> (nat \<Rightarrow> 'b) \<Rightarrow> ('b \<Rightarrow> int) \<Rightarrow> int" where
  "total n g f = (\<Sum>u<n. f (g u))"

definition own_registered :: "pc set" where
  "own_registered = {AtPublish, AtUnlockRegister, AtRun, AtClear, AtLoopTest, AtLockFind, AtScan,
     AtFound, AtNotFound, AtUnlockFind, AtStealFrom, AtLockVictim, AtDecVictim, AtUnlockVictim,
     AtFinalizeVictim, AtLockOwn, AtDecOwn}"

definition holds :: "'a \<Rightarrow> 'a frame \<Rightarrow> int" where
  "holds t f =
     (if stealing_task f = Some t \<and> pc f \<in> own_registered then 1 else 0)
     + (if steal_from_task f = Some t \<and> pc f \<in> {AtUnlockFind, AtStealFrom, AtLockVictim, AtDecVictim}
        then 1 else 0)"

definition pre_owner :: "'a \<Rightarrow> 'a frame \<Rightarrow> int" where
  "pre_owner t f =
     (if stealing_task f = Some t \<and> pc f \<in> {AtCheckNoTask, AtLockRegister, AtIncOwn} then 1 else 0)"

definition pending :: "'a \<Rightarrow> 'a frame \<Rightarrow> int" where
  "pending t f =
     (if steal_from_task f = Some t \<and> finalize f \<and> pc f \<in> {AtUnlockVictim, AtFinalizeVictim}
      then 1 else 0)
     + (if stealing_task f = Some t \<and> finalize f \<and> pc f \<in> {AtUnlockOwn, AtFinalizeOwn}
        then 1 else 0)"

definition locked :: "pc set" where
  "locked = {AtIncOwn, AtPublish, AtUnlockRegister, AtScan, AtFound, AtNotFound, AtUnlockFind,
     AtDecVictim, AtUnlockVictim, AtDecOwn, AtUnlockOwn}"

definition calm :: "pc set" where
  "calm = {AtRun, AtClear, AtLoopTest, AtLockFind, AtLockOwn}"

definition active :: "pc set" where
  "active = {AtCheckNoTask, AtLockRegister, AtIncOwn} \<union> own_registered"

definition published :: "pc set" where
  "published = {AtUnlockRegister, AtRun, AtClear}"


definition num :: "('a, 'w::len) system \<Rightarrow> nat" where
  "num s = length (threads (pool s))"

text \<open>
  The invariant of the running system:
  \<^item> \<open>inv_lock\<close>: the lock is held by exactly the worker inside a critical section;
  \<^item> \<open>inv_count\<close>: \<^verbatim>\<open>ref_count_\<close> of a task is the number of references held to it;
  \<^item> \<open>inv_life\<close>: a submitted task is in exactly one of these states: queued; taken but
    not yet counted; referenced; about to be finalised by one worker; finalised once;
  \<^item> \<open>inv_slot\<close>: a worker's \<^verbatim>\<open>task_\<close> is its own task, set only between lines 170 and 176;
  \<^item> \<open>inv_found\<close>: the task a scan has just found still has its owner's reference;
  \<^item> \<open>inv_unique\<close>: a task has one owner;
  \<^item> \<open>inv_index\<close>: the cursor is inside the vector.
\<close>

definition inv_lock :: "('a, 'w::len) system \<Rightarrow> bool" where
  "inv_lock s \<longleftrightarrow>
     (\<forall>w. work_steal_lock s = Some w \<longrightarrow> w < num s \<and> pc (frames s w) \<in> locked)
     \<and> (\<forall>w < num s. pc (frames s w) \<in> locked \<longrightarrow> work_steal_lock s = Some w)"

definition inv_count :: "('a, 'w::len) system \<Rightarrow> bool" where
  "inv_count s \<longleftrightarrow> (\<forall>t. ref_count s t = total (num s) (frames s) (holds t))"

definition inv_life :: "('a, 'w::len) system \<Rightarrow> bool" where
  "inv_life s \<longleftrightarrow>
     (\<forall>t. int (count_list (tasks (pool s)) t) + total (num s) (frames s) (pre_owner t)
           + (if 0 < ref_count s t then 1 else 0) + total (num s) (frames s) (pending t)
           + int (finalized s t)
         = (if t \<in> submitted s then 1 else 0))"

definition inv_slot :: "('a, 'w::len) system \<Rightarrow> bool" where
  "inv_slot s \<longleftrightarrow>
     (\<forall>w < num s. \<forall>t. threads (pool s) ! w = Some t \<longrightarrow>
        stealing_task (frames s w) = Some t \<and> pc (frames s w) \<in> {AtUnlockRegister, AtRun, AtClear})"

definition inv_found :: "('a, 'w::len) system \<Rightarrow> bool" where
  "inv_found s \<longleftrightarrow>
     (\<forall>w < num s. \<forall>v. pc (frames s w) = AtFound \<and> steal_from_task (frames s w) = Some v \<longrightarrow>
        (\<exists>u < num s. stealing_task (frames s u) = Some v
            \<and> pc (frames s u) \<in> {AtRun, AtClear, AtLoopTest, AtLockFind, AtLockOwn}))"

definition inv_unique :: "('a, 'w::len) system \<Rightarrow> bool" where
  "inv_unique s \<longleftrightarrow>
     (\<forall>u < num s. \<forall>w < num s. \<forall>t.
        stealing_task (frames s u) = Some t \<and> pc (frames s u) \<in> {AtCheckNoTask, AtLockRegister, AtIncOwn} \<union> own_registered
        \<and> stealing_task (frames s w) = Some t \<and> pc (frames s w) \<in> {AtCheckNoTask, AtLockRegister, AtIncOwn} \<union> own_registered
        \<longrightarrow> u = w)"

definition inv_index :: "('a, 'w::len) system \<Rightarrow> bool" where
  "inv_index s \<longleftrightarrow>
     num s < 2 ^ LENGTH('w) \<and> (num s = 0 \<or> unat (steal_index (pool s)) < num s)"

definition invariant :: "('a, 'w::len) system \<Rightarrow> bool" where
  "invariant s \<longleftrightarrow>
     failure s = None \<and> inv_lock s \<and> inv_count s \<and> inv_life s \<and> inv_slot s \<and> inv_found s
     \<and> inv_unique s \<and> inv_index s"


subsection \<open>Example states\<close>

text \<open>
  A pool of one worker as the constructor leaves it, with 100 and 0 in the two fields it
  does not write; that pool after \<^verbatim>\<open>StartWorkers\<close> at time 100; the started pool with
  its worker waiting inside \<^verbatim>\<open>GetTask\<close>; the started pool after \<^verbatim>\<open>AddTask\<close> of
  task 7; that pool after the destructor's critical section; a started pool with two
  queued tasks that is shutting down; and a work-stealing pool of three workers of which
  only worker 1 runs a task.
\<close>

definition fresh_pool :: "(nat, 64) ThreadPool" where
  "fresh_pool = ThreadPool_new 1 100 0"

definition started_pool :: "(nat, 64) ThreadPool" where
  "started_pool = fst (StartWorkers 100 fresh_pool)"

definition waiting_pool :: "(nat, 64) ThreadPool" where
  "waiting_pool = outcome_state (fst (GetTask [] started_pool))"

definition busy_pool :: "(nat, 64) ThreadPool" where
  "busy_pool = fst (AddTask 7 started_pool)"

definition stopping_pool :: "(nat, 64) ThreadPool" where
  "stopping_pool = fst (ThreadPool_delete busy_pool)"

definition draining_pool :: "(nat, 64) ThreadPool" where
  "draining_pool = fst (ThreadPool_delete (fst (AddTask 2 (fst (AddTask 1 started_pool)))))"

definition stealing_pool :: "(nat, 64) WorkStealingThreadPool" where
  "stealing_pool = (WorkStealingThreadPool_new 3 0 0)\<lparr>threads := [None, Some 5, None], steal_index := 1\<rparr>"


text \<open>
  A run of a work-stealing pool of two workers: tasks 1 and 2 are submitted and the
  pool started; worker 0 takes task 1 and runs it; worker 1 takes task 2, completes it,
  finds task 1 in worker 0's \<^verbatim>\<open>task_\<close> and takes a reference; worker 0 completes its
  cycle and drops its reference to task 1 without finalising; worker 1 finishes stealing
  and finalises task 1, then task 2.
\<close>

definition schedule :: "nat action list" where
  "schedule =
    [CallAddTask 1, CallAddTask 2, CallStartWorkers 5, Worker 0 0 0, Worker 0 0 0, Worker 0 0 0,
     Worker 0 0 0, Worker 0 0 0, Worker 0 0 0, Worker 1 0 0, Worker 1 0 0, Worker 1 0 0,
     Worker 1 0 0, Worker 1 0 0, Worker 1 0 0, Worker 1 0 0, Worker 1 0 0, Worker 1 0 0,
     Worker 1 0 0, Worker 1 0 0, Worker 1 0 0, Worker 1 0 0, Worker 1 0 0, Worker 0 0 0,
     Worker 0 0 0, Worker 0 0 0, Worker 0 0 0, Worker 0 0 0, Worker 0 0 0, Worker 0 0 0,
     Worker 0 0 0, Worker 0 0 0, Worker 0 0 0, Worker 0 0 0, Worker 0 0 0, Worker 1 0 0,
     Worker 1 0 0, Worker 1 0 0, Worker 1 0 0, Worker 1 0 0, Worker 1 0 0, Worker 1 0 0,
     Worker 1 0 0, Worker 1 0 0, Worker 1 0 0, Worker 1 0 0, Worker 1 0 0, Worker 1 0 0,
     Worker 1 0 0, Worker 1 0 0]"

definition state_after :: "nat \<Rightarrow> (nat, 64) system" where
  "state_after k = the (run_actions (take k schedule) (initial_system 2 0 0))"


section \<open>Properties\<close>

subsection \<open>Auxiliary facts\<close>

lemma uint_max: "uint (max a b) = max (uint a) (uint (b :: 'b::len word))"
  by (simp add: max_def word_le_def)

lemma GetTask_unfold:
  "GetTask waits p =
     (if shutting_down p then (Returned None p, [])
      else if started p \<and> tasks p \<noteq> []
      then (Returned (Some (hd (tasks p))) (p\<lparr>tasks := tl (tasks p)\<rparr>), [])
      else (case waits of
              [] \<Rightarrow> (Blocked (fst (GetTask_sleep p)), snd (GetTask_sleep p))
            | (ws, others, we) # waits' \<Rightarrow>
                (fst (GetTask waits' (GetTask_wake ws we (others (fst (GetTask_sleep p))))),
                 snd (GetTask_sleep p)
                   @ snd (GetTask waits' (GetTask_wake ws we (others (fst (GetTask_sleep p))))))))"
  by (subst GetTask.simps, cases waits; cases "tasks p")
     (simp_all add: IsShuttingDown_def TryGetTaskLocked_def split: prod.splits)

lemma GetTask_returns_None_shutting_down:
  "fst (GetTask waits p) = Returned None p' \<Longrightarrow> shutting_down p'"
proof (induction waits arbitrary: p)
  case Nil
  then show ?case by (subst (asm) GetTask_unfold) (simp split: if_splits)
next
  case (Cons w waits)
  obtain ws others we where w: "w = (ws, others, we)" by (cases w)
  from Cons.prems show ?case
    by (subst (asm) GetTask_unfold) (auto simp: w split: if_splits dest: Cons.IH)
qed

lemma exec_append: "exec (ops1 @ ops2) p = exec ops2 (exec ops1 p)"
  by (induction ops1 arbitrary: p) simp_all

lemma no_wrap_run_append:
  "no_wrap_run (ops1 @ ops2) p = (no_wrap_run ops1 p \<and> no_wrap_run ops2 (exec ops1 p))"
  by (induction ops1 arbitrary: p) simp_all

lemma GetTask_once_total_wait_time:
  "total_wait_time (outcome_state (fst (GetTask [] p))) = total_wait_time p"
  by (subst GetTask_unfold) (simp add: GetTask_sleep_def Let_def)

lemma no_wrap_op_mono:
  assumes "no_wrap_op op p"
  shows "total_wait_time p \<le> total_wait_time (exec_op op p)"
proof (cases op)
  case (OpGetTaskWake ws we)
  with assms have "unat (total_wait_time p) + unat (we - max ws (start_time p)) < 2 ^ 64"
    by simp
  then have "total_wait_time p \<le> total_wait_time p + (we - max ws (start_time p))"
    by (simp add: no_olen_add_nat)
  then show ?thesis
    by (simp add: OpGetTaskWake GetTask_once_total_wait_time GetTask_wake_def)
next
  case (OpStartWorkers now)
  with assms show ?thesis by simp
qed (simp_all add: AddTask_def Let_def StopWorkers_def TryGetTask_def TryGetTaskLocked_def
       GetTask_once_total_wait_time ThreadPool_delete_def split: list.splits)

lemma no_wrap_run_mono:
  "no_wrap_run ops p \<Longrightarrow> total_wait_time p \<le> total_wait_time (exec ops p)"
proof (induction ops arbitrary: p)
  case Nil
  then show ?case by simp
next
  case (Cons op ops)
  then have "total_wait_time p \<le> total_wait_time (exec_op op p)"
    and "total_wait_time (exec_op op p) \<le> total_wait_time (exec ops (exec_op op p))"
    by (simp_all add: no_wrap_op_mono)
  then show ?case by simp
qed

lemma steal_index_advance:
  fixes idx :: "'w::len word"
  assumes n: "n < 2 ^ LENGTH('w)" and idx: "unat idx < n"
  shows "unat (if idx + 1 \<ge> of_nat n then idx + 1 - of_nat n else idx + 1) = (unat idx + 1) mod n"
proof -
  have un: "unat (of_nat n :: 'w word) = n" using n by (simp add: unat_of_nat)
  have u1: "unat (idx + 1) = unat idx + 1"
  proof -
    have "unat idx + unat (1 :: 'w word) < 2 ^ LENGTH('w)" using n idx by simp
    then show ?thesis by (simp add: unat_add_lem [THEN iffD1])
  qed
  show ?thesis
  proof (cases "unat idx + 1 = n")
    case True
    then have "idx + 1 = (of_nat n :: 'w word)" using u1 un by (simp add: word_unat_eq_iff)
    then show ?thesis using True by simp
  next
    case False
    with idx have lt: "unat idx + 1 < n" by simp
    then have "\<not> (idx + 1 \<ge> (of_nat n :: 'w word))" by (simp add: word_le_nat_alt u1 un)
    then show ?thesis using lt u1 by simp
  qed
qed

lemma FindTaskToStealFrom_body_in_range:
  fixes p :: "('a, 'w::len, 'm) WorkStealingThreadPool_scheme"
  assumes n: "length (threads p) < 2 ^ LENGTH('w)" and idx: "unat (steal_index p) < length (threads p)"
  shows "FindTaskToStealFrom_body (of_nat (length (threads p))) p =
     (Inr (threads p ! ((unat (steal_index p) + 1) mod length (threads p))),
      p\<lparr>steal_index := of_nat ((unat (steal_index p) + 1) mod length (threads p))\<rparr>)"
proof -
  let ?n = "length (threads p)"
  let ?c = "(unat (steal_index p) + 1) mod ?n"
  let ?i = "if steal_index p + 1 \<ge> of_nat ?n then steal_index p + 1 - of_nat ?n else steal_index p + 1"
  have "0 < ?n" using idx by (cases "threads p") simp_all
  then have lt: "?c < ?n" by (rule mod_less_divisor)
  have adv: "unat ?i = ?c"
    using steal_index_advance [OF n idx] .
  have uc: "unat (of_nat ?c :: 'w word) = ?c"
    using lt n by (simp add: unat_of_nat)
  have i: "?i = of_nat ?c"
    unfolding word_unat_eq_iff uc by (rule adv)
  have p2: "(if of_nat ?n \<le> steal_index (p\<lparr>steal_index := steal_index p + 1\<rparr>)
             then p\<lparr>steal_index := steal_index p + 1\<rparr>
                   \<lparr>steal_index := steal_index (p\<lparr>steal_index := steal_index p + 1\<rparr>) - of_nat ?n\<rparr>
             else p\<lparr>steal_index := steal_index p + 1\<rparr>) = p\<lparr>steal_index := of_nat ?c\<rparr>"
    unfolding i [symmetric] by simp
  have sel: "steal_index (p\<lparr>steal_index := of_nat ?c\<rparr>) = of_nat ?c"
    "threads (p\<lparr>steal_index := of_nat ?c\<rparr>) = threads p"
    by simp_all
  show ?thesis
    unfolding FindTaskToStealFrom_body_def
    apply (simp only: Let_def p2)
    apply (simp only: sel uc lt if_True)
    done
qed

lemma FindTaskToStealFrom_loop_Suc:
  fixes p :: "('a, 'w::len, 'm) WorkStealingThreadPool_scheme"
  assumes n: "length (threads p) < 2 ^ LENGTH('w)" and idx: "unat (steal_index p) < length (threads p)"
  shows "FindTaskToStealFrom_loop (Suc left) (of_nat (length (threads p))) p =
     (case threads p ! ((unat (steal_index p) + 1) mod length (threads p)) of
        Some task \<Rightarrow> (Inr (Some task), p\<lparr>steal_index := of_nat ((unat (steal_index p) + 1) mod length (threads p))\<rparr>)
      | None \<Rightarrow> FindTaskToStealFrom_loop left (of_nat (length (threads p)))
            (p\<lparr>steal_index := of_nat ((unat (steal_index p) + 1) mod length (threads p))\<rparr>))"
  by (simp add: FindTaskToStealFrom_body_in_range [OF n idx] split: option.splits)

lemma FindTaskToStealFrom_loop_scan:
  fixes p :: "('a, 'w::len, 'm) WorkStealingThreadPool_scheme"
  assumes "length (threads p) < 2 ^ LENGTH('w)" and "unat (steal_index p) < length (threads p)"
  shows "(\<exists>k task. 1 \<le> k \<and> k \<le> left
            \<and> (\<forall>j. 1 \<le> j \<and> j < k \<longrightarrow>
                  threads p ! ((unat (steal_index p) + j) mod length (threads p)) = None)
            \<and> threads p ! ((unat (steal_index p) + k) mod length (threads p)) = Some task
            \<and> FindTaskToStealFrom_loop left (of_nat (length (threads p))) p
                = (Inr (Some task),
                   p\<lparr>steal_index := of_nat ((unat (steal_index p) + k) mod length (threads p))\<rparr>))
         \<or> ((\<forall>j. 1 \<le> j \<and> j \<le> left \<longrightarrow>
                  threads p ! ((unat (steal_index p) + j) mod length (threads p)) = None)
            \<and> FindTaskToStealFrom_loop left (of_nat (length (threads p))) p
                = (Inr None,
                   p\<lparr>steal_index := of_nat ((unat (steal_index p) + left) mod length (threads p))\<rparr>))"
  using assms
proof (induction left arbitrary: p)
  case 0
  then show ?case by simp
next
  case (Suc left)
  let ?n = "length (threads p)"
  let ?i = "unat (steal_index p)"
  let ?c = "\<lambda>j. (?i + j) mod ?n"
  let ?p2 = "p\<lparr>steal_index := of_nat (?c 1)\<rparr>"
  have npos: "0 < ?n" using Suc.prems(2) by (cases "threads p") simp_all
  have c1: "?c 1 < ?n" using npos by simp
  have i2: "unat (steal_index ?p2) = ?c 1"
    using c1 Suc.prems(1) by (simp add: unat_of_nat)
  have shift: "(unat (steal_index ?p2) + j) mod ?n = ?c (Suc j)" for j
    by (subst i2) (simp add: mod_add_left_eq)
  show ?case
  proof (cases "threads p ! ?c 1")
    case (Some task)
    have "FindTaskToStealFrom_loop (Suc left) (of_nat ?n) p = (Inr (Some task), ?p2)"
      using Suc.prems Some by (simp add: FindTaskToStealFrom_loop_Suc del: FindTaskToStealFrom_loop.simps)
    with Some have "1 \<le> (1::nat) \<and> (1::nat) \<le> Suc left
            \<and> (\<forall>j. 1 \<le> j \<and> j < (1::nat) \<longrightarrow> threads p ! ?c j = None)
            \<and> threads p ! ?c 1 = Some task
            \<and> FindTaskToStealFrom_loop (Suc left) (of_nat ?n) p = (Inr (Some task), p\<lparr>steal_index := of_nat (?c 1)\<rparr>)"
      by simp
    then show ?thesis by blast
  next
    case None
    have step: "FindTaskToStealFrom_loop (Suc left) (of_nat ?n) p
        = FindTaskToStealFrom_loop left (of_nat ?n) ?p2"
      using Suc.prems None by (simp add: FindTaskToStealFrom_loop_Suc del: FindTaskToStealFrom_loop.simps)
    have pre: "length (threads ?p2) < 2 ^ LENGTH('w)" "unat (steal_index ?p2) < length (threads ?p2)"
      using Suc.prems(1) i2 c1 by simp_all
    have thr: "threads ?p2 = threads p" by simp
    have upd: "?p2\<lparr>steal_index := x\<rparr> = p\<lparr>steal_index := x\<rparr>" for x by simp
    note IH = Suc.IH [OF pre, unfolded thr shift upd]
    from IH consider
      (found) k task where "1 \<le> k" "k \<le> left"
         "\<forall>j. 1 \<le> j \<and> j < k \<longrightarrow> threads p ! ?c (Suc j) = None"
         "threads p ! ?c (Suc k) = Some task"
         "FindTaskToStealFrom_loop left (of_nat ?n) ?p2 = (Inr (Some task), p\<lparr>steal_index := of_nat (?c (Suc k))\<rparr>)"
      | (none) "\<forall>j. 1 \<le> j \<and> j \<le> left \<longrightarrow> threads p ! ?c (Suc j) = None"
         "FindTaskToStealFrom_loop left (of_nat ?n) ?p2 = (Inr None, p\<lparr>steal_index := of_nat (?c (Suc left))\<rparr>)"
      by blast
    then show ?thesis
    proof cases
      case found
      have "\<forall>j. 1 \<le> j \<and> j < Suc k \<longrightarrow> threads p ! ?c j = None"
      proof (intro allI impI)
        fix j assume j: "1 \<le> j \<and> j < Suc k"
        show "threads p ! ?c j = None"
        proof (cases "j = 1")
          case True
          then show ?thesis using None by simp
        next
          case False
          with j obtain j' where "j = Suc j'" "1 \<le> j'" "j' < k" by (cases j) auto
          with found(3) show ?thesis by simp
        qed
      qed
      with found step have "1 \<le> Suc k \<and> Suc k \<le> Suc left
            \<and> (\<forall>j. 1 \<le> j \<and> j < Suc k \<longrightarrow> threads p ! ?c j = None)
            \<and> threads p ! ?c (Suc k) = Some task
            \<and> FindTaskToStealFrom_loop (Suc left) (of_nat ?n) p = (Inr (Some task), p\<lparr>steal_index := of_nat (?c (Suc k))\<rparr>)"
        by simp
      then show ?thesis by blast
    next
      case none
      have "\<forall>j. 1 \<le> j \<and> j \<le> Suc left \<longrightarrow> threads p ! ?c j = None"
      proof (intro allI impI)
        fix j assume j: "1 \<le> j \<and> j \<le> Suc left"
        show "threads p ! ?c j = None"
        proof (cases "j = 1")
          case True
          then show ?thesis using None by simp
        next
          case False
          with j obtain j' where "j = Suc j'" "1 \<le> j'" "j' \<le> left" by (cases j) auto
          with none(1) show ?thesis by simp
        qed
      qed
      with none step show ?thesis by simp
    qed
  qed
qed

lemma scan_reaches_every_worker:
  assumes "i < n" and "w < (n::nat)"
  shows "\<exists>j. 1 \<le> j \<and> j \<le> n \<and> (i + j) mod n = w"
proof (cases "i < w")
  case True
  with assms have "1 \<le> w - i" "w - i \<le> n" "i + (w - i) = w" by arith+
  with assms(2) have "1 \<le> w - i \<and> w - i \<le> n \<and> (i + (w - i)) mod n = w" by simp
  then show ?thesis by blast
next
  case False
  with assms have "1 \<le> n + w - i" "n + w - i \<le> n" "i + (n + w - i) = n + w" by arith+
  with assms(2) have "1 \<le> n + w - i \<and> n + w - i \<le> n \<and> (i + (n + w - i)) mod n = w" by simp
  then show ?thesis by blast
qed


subsection \<open>Wait\<close>

text \<open>
  C1.  The claim: \<^verbatim>\<open>Wait(self, do_work)\<close> drains the queue on the calling thread only
  when \<open>do_work\<close> is true, and pops and runs nothing when it is false.  The code never
  reads \<open>do_work\<close>: called with \<open>do_work = False\<close> on a started pool that holds task 7,
  it pops the task, runs it and finalises it before it waits for quiescence.
\<close>

theorem Wait_false_still_drains:
  "Wait False [id] [] busy_pool
     = (Waiting (busy_pool\<lparr>tasks := []\<rparr>), [Run 7, Finalize 7, CondWait completion_condition])"
  by code_simp

subsection \<open>Wait-time accounting\<close>

text \<open>
  C2.  The claim: every wait inside \<^verbatim>\<open>GetTask\<close> adds
  \<open>max 0 (wait_end - max wait_start start_time)\<close> to \<^verbatim>\<open>total_wait_time_\<close>.  The code
  subtracts in \<^verbatim>\<open>uint64_t\<close> and has no clamp at 0, so the claim holds for the waits
  that end at or after \<open>max wait_start start_time\<close>: for these the amount added is the
  difference, counted from \<open>start_time\<close> when the wait began before it, and it is not
  negative.
\<close>

theorem GetTask_wake_adds_clipped_interval:
  assumes "max wait_start (start_time p) \<le> wait_end"
  shows "uint (total_wait_time (GetTask_wake wait_start wait_end p) - total_wait_time p)
           = max 0 (uint wait_end - max (uint wait_start) (uint (start_time p)))
         \<and> uint (total_wait_time (GetTask_wake wait_start wait_end p) - total_wait_time p)
           = uint wait_end - max (uint wait_start) (uint (start_time p))"
proof -
  let ?m = "max wait_start (start_time p)"
  have added: "total_wait_time (GetTask_wake wait_start wait_end p) - total_wait_time p
      = wait_end - ?m"
    by (simp add: GetTask_wake_def)
  from assms have le: "uint ?m \<le> uint wait_end" by (simp add: word_le_def)
  then have "uint (wait_end - ?m) = uint wait_end - uint ?m"
    by (simp add: uint_sub_lem)
  with le show ?thesis unfolding added by (simp add: uint_max)
qed

theorem GetTask_wake_adds_clipped_interval_witness:
  "max 110 (start_time waiting_pool) \<le> (150 :: uint64_t)
   \<and> uint (total_wait_time (GetTask_wake 110 150 waiting_pool) - total_wait_time waiting_pool) = 40"
proof -
  have h: "max 110 (start_time waiting_pool) \<le> (150 :: uint64_t)" by code_simp
  have v: "uint (150 :: uint64_t) - max (uint (110 :: uint64_t)) (uint (start_time waiting_pool)) = 40"
    by code_simp
  from GetTask_wake_adds_clipped_interval [OF h] h v show ?thesis by simp
qed

text \<open>
  The claim as stated fails on a pool that \<^verbatim>\<open>StartWorkers\<close> has not touched yet, whose
  \<^verbatim>\<open>start_time_\<close> holds 100: a wait from 10 to 50 adds \<open>2 ^ 64 - 50\<close>, not 0.
\<close>

theorem GetTask_wait_wraps_counterexample:
  "uint (total_wait_time (outcome_state (fst (GetTask [(10, id, 50)] fresh_pool)))
          - total_wait_time fresh_pool)
     \<noteq> max 0 (uint (50 :: uint64_t) - max (uint (10 :: uint64_t)) (uint (start_time fresh_pool)))"
  by code_simp

text \<open>
  C3.  The claim: over any sequence of pool operations \<^verbatim>\<open>total_wait_time_\<close> is
  non-negative and never decreases.  It is non-negative, being unsigned, but
  \<^verbatim>\<open>StartWorkers\<close> resets it to 0.  Over a run without \<^verbatim>\<open>StartWorkers\<close> in which no
  wait's contribution wraps, it never decreases from one point of the run to a later one.
\<close>

theorem total_wait_time_monotone_between_starts:
  "0 \<le> uint (total_wait_time (exec ops p))
   \<and> total_wait_time (exec_op (OpStartWorkers now) p) = 0
   \<and> (no_wrap_run (earlier @ later) p \<longrightarrow>
        total_wait_time (exec earlier p) \<le> total_wait_time (exec (earlier @ later) p))"
  using no_wrap_run_mono [of later "exec earlier p"]
  by (simp add: exec_append no_wrap_run_append StartWorkers_def)

theorem total_wait_time_monotone_between_starts_witness:
  "no_wrap_run ([OpGetTaskEnter] @ [OpAddTask 8, OpGetTaskWake 110 150]) started_pool
   \<and> total_wait_time (exec [OpGetTaskEnter] started_pool) = 0
   \<and> total_wait_time (exec ([OpGetTaskEnter] @ [OpAddTask 8, OpGetTaskWake 110 150]) started_pool) = 40
   \<and> total_wait_time (exec [OpGetTaskEnter] started_pool)
        \<le> total_wait_time (exec ([OpGetTaskEnter] @ [OpAddTask 8, OpGetTaskWake 110 150]) started_pool)"
proof -
  let ?q = "exec_op (OpAddTask 8) (exec_op OpGetTaskEnter started_pool)"
  have c: "max 110 (start_time ?q) \<le> (150 :: uint64_t)" by code_simp
  have d: "unat (total_wait_time ?q) = 0"
    "unat (150 - max 110 (start_time ?q) :: uint64_t) = 40" by code_simp+
  have h: "no_wrap_run ([OpGetTaskEnter] @ [OpAddTask 8, OpGetTaskWake 110 150]) started_pool"
    by (simp only: append.simps no_wrap_run.simps no_wrap_op.simps c d) simp
  have v: "total_wait_time (exec [OpGetTaskEnter] started_pool) = 0"
    "total_wait_time (exec ([OpGetTaskEnter] @ [OpAddTask 8, OpGetTaskWake 110 150]) started_pool) = 40"
    by code_simp+
  from total_wait_time_monotone_between_starts
    [where earlier = "[OpGetTaskEnter]" and later = "[OpAddTask 8, OpGetTaskWake 110 150]"
       and p = started_pool] h
  have "total_wait_time (exec [OpGetTaskEnter] started_pool)
        \<le> total_wait_time (exec ([OpGetTaskEnter] @ [OpAddTask 8, OpGetTaskWake 110 150]) started_pool)"
    by blast
  with h v show ?thesis by blast
qed

text \<open>
  The worker of the started pool waits from 110 to 150 and is woken by an \<^verbatim>\<open>AddTask\<close>,
  which brings the counter to 40; the next \<^verbatim>\<open>StartWorkers\<close> makes it smaller.
\<close>

theorem StartWorkers_resets_total_wait_time_counterexample:
  "total_wait_time
     (exec [OpGetTaskEnter, OpAddTask 8, OpGetTaskWake 110 150, OpStartWorkers 200] started_pool)
     < total_wait_time (exec [OpGetTaskEnter, OpAddTask 8, OpGetTaskWake 110 150] started_pool)"
  by code_simp

subsection \<open>GetTask\<close>

text \<open>
  C4.  \<^verbatim>\<open>GetTask\<close> returns none when it sees \<^verbatim>\<open>shutting_down_\<close> set, and only then.
  Otherwise, if the pool is started and the queue is not empty, it removes the head of
  the queue and returns it.  Otherwise it increments \<^verbatim>\<open>waiting_count_\<close>, broadcasts
  \<^verbatim>\<open>completion_condition_\<close> if the count now equals the number of workers and the queue
  is empty, and then waits on \<^verbatim>\<open>task_queue_condition_\<close>; after the wait it goes round
  the loop again.
\<close>

theorem GetTask_behaviour:
  "(shutting_down p \<longrightarrow> GetTask waits p = (Returned None p, []))
   \<and> (fst (GetTask waits p) = Returned None p' \<longrightarrow> shutting_down p')
   \<and> (\<not> shutting_down p \<and> started p \<and> tasks p = task # rest \<longrightarrow>
        GetTask waits p = (Returned (Some task) (p\<lparr>tasks := rest\<rparr>), []))
   \<and> (\<not> shutting_down p \<and> \<not> (started p \<and> tasks p \<noteq> []) \<longrightarrow>
        GetTask [] p =
          (Blocked (p\<lparr>waiting_count := waiting_count p + 1\<rparr>),
           (if waiting_count p + 1 = GetThreadCount p \<and> tasks p = []
            then [Broadcast completion_condition] else []) @ [CondWait task_queue_condition])
        \<and> GetTask ((wait_start, others, wait_end) # waits) p =
          (fst (GetTask waits
                 (GetTask_wake wait_start wait_end (others (p\<lparr>waiting_count := waiting_count p + 1\<rparr>)))),
           (if waiting_count p + 1 = GetThreadCount p \<and> tasks p = []
            then [Broadcast completion_condition] else []) @ [CondWait task_queue_condition]
           @ snd (GetTask waits
                 (GetTask_wake wait_start wait_end (others (p\<lparr>waiting_count := waiting_count p + 1\<rparr>))))))"
proof -
  have a: "shutting_down p \<Longrightarrow> GetTask waits p = (Returned None p, [])"
    by (subst GetTask_unfold) simp
  have c: "\<not> shutting_down p \<and> started p \<and> tasks p = task # rest \<Longrightarrow>
        GetTask waits p = (Returned (Some task) (p\<lparr>tasks := rest\<rparr>), [])"
    by (subst GetTask_unfold) simp
  have s: "GetTask_sleep p = (p\<lparr>waiting_count := waiting_count p + 1\<rparr>,
           (if waiting_count p + 1 = GetThreadCount p \<and> tasks p = []
            then [Broadcast completion_condition] else []) @ [CondWait task_queue_condition])"
    by (simp add: GetTask_sleep_def Let_def GetThreadCount_def)
  have d: "\<not> shutting_down p \<and> \<not> (started p \<and> tasks p \<noteq> []) \<Longrightarrow>
        GetTask [] p =
          (Blocked (p\<lparr>waiting_count := waiting_count p + 1\<rparr>),
           (if waiting_count p + 1 = GetThreadCount p \<and> tasks p = []
            then [Broadcast completion_condition] else []) @ [CondWait task_queue_condition])"
    by (subst GetTask_unfold) (simp add: s)
  have e: "\<not> shutting_down p \<and> \<not> (started p \<and> tasks p \<noteq> []) \<Longrightarrow>
       GetTask ((wait_start, others, wait_end) # waits) p =
          (fst (GetTask waits
                 (GetTask_wake wait_start wait_end (others (p\<lparr>waiting_count := waiting_count p + 1\<rparr>)))),
           (if waiting_count p + 1 = GetThreadCount p \<and> tasks p = []
            then [Broadcast completion_condition] else []) @ [CondWait task_queue_condition]
           @ snd (GetTask waits
                 (GetTask_wake wait_start wait_end (others (p\<lparr>waiting_count := waiting_count p + 1\<rparr>)))))"
    by (subst GetTask_unfold) (simp add: s)
  from a c d e GetTask_returns_None_shutting_down [of waits p p'] show ?thesis by blast
qed

theorem GetTask_behaviour_witness:
  "GetTask [] stopping_pool = (Returned None stopping_pool, [])
   \<and> GetTask [] busy_pool = (Returned (Some 7) (busy_pool\<lparr>tasks := []\<rparr>), [])
   \<and> GetTask [] fresh_pool =
       (Blocked (fresh_pool\<lparr>waiting_count := 1\<rparr>),
        [Broadcast completion_condition, CondWait task_queue_condition])"
proof -
  have h1: "shutting_down stopping_pool" by code_simp
  have h2: "\<not> shutting_down busy_pool \<and> started busy_pool \<and> tasks busy_pool = 7 # []" by code_simp
  have h3: "\<not> shutting_down fresh_pool \<and> \<not> (started fresh_pool \<and> tasks fresh_pool \<noteq> [])" by code_simp
  have h4: "waiting_count fresh_pool = 0 \<and> GetThreadCount fresh_pool = 1 \<and> tasks fresh_pool = []"
    by code_simp
  from GetTask_behaviour [of stopping_pool "[]"] h1
  have r1: "GetTask [] stopping_pool = (Returned None stopping_pool, [])" by blast
  from GetTask_behaviour [of busy_pool "[]" _ 7 "[]"] h2
  have r2: "GetTask [] busy_pool = (Returned (Some 7) (busy_pool\<lparr>tasks := []\<rparr>), [])" by blast
  from GetTask_behaviour [of fresh_pool "[]"] h3
  have r3: "GetTask [] fresh_pool =
       (Blocked (fresh_pool\<lparr>waiting_count := waiting_count fresh_pool + 1\<rparr>),
        (if waiting_count fresh_pool + 1 = GetThreadCount fresh_pool \<and> tasks fresh_pool = []
            then [Broadcast completion_condition] else []) @ [CondWait task_queue_condition])" by blast
  from r1 r2 r3 h4 show ?thesis by simp
qed



subsection \<open>FindTaskToStealFrom\<close>

text \<open>
  C6.  With the cursor inside the vector, \<^verbatim>\<open>FindTaskToStealFrom\<close> examines \<open>k\<close>
  candidates for some \<open>k\<close> from 1 to the number of workers: the workers at
  \<open>cursor + 1, ..., cursor + k\<close> modulo the number of workers.  The first \<open>k - 1\<close> of
  them have no current task; the result is the current task of the \<open>k\<close>-th, which is
  none only when all workers were examined; the cursor stays on the \<open>k\<close>-th
  candidate, where the next call goes on.  The caller is a candidate like any other:
  when the caller's own task is the only one, that task is what the scan returns.
\<close>

theorem FindTaskToStealFrom_round_robin:
  fixes p :: "('a, 'w::len, 'm) WorkStealingThreadPool_scheme"
  assumes "length (threads p) < 2 ^ LENGTH('w)" and "unat (steal_index p) < length (threads p)"
  shows "\<exists>k. 1 \<le> k \<and> k \<le> length (threads p)
          \<and> (\<forall>j. 1 \<le> j \<and> j < k \<longrightarrow>
                threads p ! ((unat (steal_index p) + j) mod length (threads p)) = None)
          \<and> (k < length (threads p) \<longrightarrow>
                threads p ! ((unat (steal_index p) + k) mod length (threads p)) \<noteq> None)
          \<and> FindTaskToStealFrom self p
              = (Inr (threads p ! ((unat (steal_index p) + k) mod length (threads p))),
                 p\<lparr>steal_index := of_nat ((unat (steal_index p) + k) mod length (threads p))\<rparr>)
          \<and> unat (steal_index (snd (FindTaskToStealFrom self p)))
              = (unat (steal_index p) + k) mod length (threads p)
          \<and> (self < length (threads p) \<and> threads p ! self \<noteq> None
               \<and> (\<forall>v < length (threads p). v \<noteq> self \<longrightarrow> threads p ! v = None) \<longrightarrow>
                fst (FindTaskToStealFrom self p) = Inr (threads p ! self))"
proof -
  let ?n = "length (threads p)"
  let ?i = "unat (steal_index p)"
  let ?c = "\<lambda>j. (?i + j) mod ?n"
  have npos: "0 < ?n" using assms(2) by (cases "threads p") simp_all
  have tc: "unat (GetThreadCount p) = ?n"
    using assms(1) by (simp add: GetThreadCount_def unat_of_nat)
  have call: "FindTaskToStealFrom self p = FindTaskToStealFrom_loop ?n (of_nat ?n) p"
    by (simp add: FindTaskToStealFrom_def tc) (simp add: GetThreadCount_def)
  have un: "unat (of_nat (?c k) :: 'w word) = ?c k" for k
  proof -
    have "?c k < ?n" using npos by simp
    with assms(1) show ?thesis by (simp add: unat_of_nat)
  qed
  have main: "\<exists>k. 1 \<le> k \<and> k \<le> ?n
          \<and> (\<forall>j. 1 \<le> j \<and> j < k \<longrightarrow> threads p ! ?c j = None)
          \<and> (k < ?n \<longrightarrow> threads p ! ?c k \<noteq> None)
          \<and> FindTaskToStealFrom self p = (Inr (threads p ! ?c k), p\<lparr>steal_index := of_nat (?c k)\<rparr>)"
    using FindTaskToStealFrom_loop_scan [OF assms, of ?n]
  proof (elim disjE exE conjE)
    fix k task
    assume "1 \<le> k" "k \<le> ?n" "\<forall>j. 1 \<le> j \<and> j < k \<longrightarrow> threads p ! ?c j = None"
      "threads p ! ?c k = Some task"
      "FindTaskToStealFrom_loop ?n (of_nat ?n) p = (Inr (Some task), p\<lparr>steal_index := of_nat (?c k)\<rparr>)"
    then have "1 \<le> k \<and> k \<le> ?n
          \<and> (\<forall>j. 1 \<le> j \<and> j < k \<longrightarrow> threads p ! ?c j = None)
          \<and> (k < ?n \<longrightarrow> threads p ! ?c k \<noteq> None)
          \<and> FindTaskToStealFrom self p = (Inr (threads p ! ?c k), p\<lparr>steal_index := of_nat (?c k)\<rparr>)"
      by (simp add: call)
    then show ?thesis by blast
  next
    assume A: "\<forall>j. 1 \<le> j \<and> j \<le> ?n \<longrightarrow> threads p ! ?c j = None"
      and B: "FindTaskToStealFrom_loop ?n (of_nat ?n) p = (Inr None, p\<lparr>steal_index := of_nat (?c ?n)\<rparr>)"
    have n1: "1 \<le> ?n" using npos by linarith
    with A have last: "threads p ! ?c ?n = None" by blast
    from A have "\<forall>j. 1 \<le> j \<and> j < ?n \<longrightarrow> threads p ! ?c j = None" by simp
    with n1 have "1 \<le> ?n \<and> ?n \<le> ?n
          \<and> (\<forall>j. 1 \<le> j \<and> j < ?n \<longrightarrow> threads p ! ?c j = None)
          \<and> (?n < ?n \<longrightarrow> threads p ! ?c ?n \<noteq> None)
          \<and> FindTaskToStealFrom self p = (Inr (threads p ! ?c ?n), p\<lparr>steal_index := of_nat (?c ?n)\<rparr>)"
      unfolding call B last by simp
    then show ?thesis by blast
  qed
  then obtain k where k: "1 \<le> k" "k \<le> ?n"
      "\<forall>j. 1 \<le> j \<and> j < k \<longrightarrow> threads p ! ?c j = None"
      "k < ?n \<longrightarrow> threads p ! ?c k \<noteq> None"
      "FindTaskToStealFrom self p = (Inr (threads p ! ?c k), p\<lparr>steal_index := of_nat (?c k)\<rparr>)"
    by blast
  have cursor: "unat (steal_index (snd (FindTaskToStealFrom self p))) = ?c k"
    by (simp add: k(5) un)
  have own: "fst (FindTaskToStealFrom self p) = Inr (threads p ! self)"
    if self: "self < ?n" "threads p ! self \<noteq> None" "\<forall>v < ?n. v \<noteq> self \<longrightarrow> threads p ! v = None"
  proof -
    from scan_reaches_every_worker [OF assms(2) self(1)]
    obtain j where j: "1 \<le> j" "j \<le> ?n" "?c j = self" by blast
    have ck: "?c k < ?n" using npos by simp
    have "?c k = self"
    proof (rule ccontr)
      assume ne: "?c k \<noteq> self"
      with self(3) ck have none: "threads p ! ?c k = None" by blast
      with k(4) k(2) have "k = ?n" by auto
      with k(3) j none have "threads p ! ?c j = None" by (cases "j = ?n") auto
      with j(3) self(2) show False by simp
    qed
    then show ?thesis by (simp add: k(5))
  qed
  from k cursor own show ?thesis by blast
qed

theorem FindTaskToStealFrom_round_robin_witness:
  "length (threads stealing_pool) < 2 ^ 64
   \<and> unat (steal_index stealing_pool) < length (threads stealing_pool)
   \<and> fst (FindTaskToStealFrom 1 stealing_pool) = Inr (Some 5)"
proof -
  have h1: "length (threads stealing_pool) < 2 ^ LENGTH(64)"
    by (simp add: stealing_pool_def)
  have h2: "unat (steal_index stealing_pool) < length (threads stealing_pool)"
    by (simp add: stealing_pool_def)
  have h3: "1 < length (threads stealing_pool) \<and> threads stealing_pool ! 1 \<noteq> None
      \<and> (\<forall>v < length (threads stealing_pool). v \<noteq> 1 \<longrightarrow> threads stealing_pool ! v = None)"
    by (simp add: stealing_pool_def less_Suc_eq numeral_3_eq_3)
  have v: "threads stealing_pool ! 1 = Some 5"
    by (simp add: stealing_pool_def)
  from FindTaskToStealFrom_round_robin [OF h1 h2, of 1] h3
  have "fst (FindTaskToStealFrom 1 stealing_pool) = Inr (threads stealing_pool ! 1)" by blast
  with h1 h2 v show ?thesis by simp
qed

subsection \<open>AddTask, StartWorkers, TryGetTask, the constructor\<close>

text \<open>
  C7.  \<^verbatim>\<open>AddTask\<close> appends the task at the tail of the queue and changes nothing else
  of the pool; it signals \<^verbatim>\<open>task_queue_condition_\<close> once when \<^verbatim>\<open>waiting_count_\<close> is
  positive and does nothing to either condition variable otherwise.
\<close>

theorem AddTask_appends_signals_once:
  "AddTask task p =
     (p\<lparr>tasks := tasks p @ [task]\<rparr>,
      if 0 < waiting_count p then [Signal task_queue_condition] else [])"
  by (simp add: AddTask_def Let_def word_greater_zero_iff)

text \<open>
  C8.  Two calls of \<^verbatim>\<open>StartWorkers\<close> in a row leave the pool as the second call alone
  would: started, with \<^verbatim>\<open>start_time_\<close> the clock of the latest call and
  \<^verbatim>\<open>total_wait_time_\<close> 0; each call broadcasts \<^verbatim>\<open>task_queue_condition_\<close>.
\<close>

theorem StartWorkers_idempotent:
  "fst (StartWorkers t2 (fst (StartWorkers t1 p))) = fst (StartWorkers t2 p)
   \<and> snd (StartWorkers t2 (fst (StartWorkers t1 p))) = [Broadcast task_queue_condition]
   \<and> snd (StartWorkers t2 p) = [Broadcast task_queue_condition]
   \<and> fst (StartWorkers t2 p) = p\<lparr>started := True, start_time := t2, total_wait_time := 0\<rparr>"
  by (simp add: StartWorkers_def)

text \<open>
  C9.  \<^verbatim>\<open>TryGetTask\<close> removes and returns the head of the queue whenever the pool is
  started and the queue is not empty, returns none (leaving the pool as it is) exactly
  when the pool is not started or the queue is empty, and does the same whatever
  \<^verbatim>\<open>shutting_down_\<close> holds.
\<close>

theorem TryGetTask_ignores_shutting_down:
  "(started p \<and> tasks p = task # rest \<longrightarrow> TryGetTask p = (Some task, p\<lparr>tasks := rest\<rparr>))
   \<and> (fst (TryGetTask p) = None \<longleftrightarrow> \<not> started p \<or> tasks p = [])
   \<and> (fst (TryGetTask p) = None \<longrightarrow> snd (TryGetTask p) = p)
   \<and> TryGetTask (p\<lparr>shutting_down := b\<rparr>)
       = (fst (TryGetTask p), (snd (TryGetTask p))\<lparr>shutting_down := b\<rparr>)"
  by (auto simp add: TryGetTask_def TryGetTaskLocked_def split: list.splits)

theorem TryGetTask_ignores_shutting_down_witness:
  "shutting_down draining_pool \<and> started draining_pool \<and> tasks draining_pool = [1, 2]
   \<and> TryGetTask draining_pool = (Some 1, draining_pool\<lparr>tasks := [2]\<rparr>)"
proof -
  have h: "started draining_pool \<and> tasks draining_pool = 1 # [2]" by code_simp
  have sd: "shutting_down draining_pool" by code_simp
  from TryGetTask_ignores_shutting_down [of draining_pool 1 "[2]"] h
  have "TryGetTask draining_pool = (Some 1, draining_pool\<lparr>tasks := [2]\<rparr>)" by blast
  with h sd show ?thesis by simp
qed

text \<open>
  C10.  The constructor sets \<^verbatim>\<open>started_\<close>, \<^verbatim>\<open>shutting_down_\<close> and
  \<^verbatim>\<open>waiting_count_\<close> and leaves in \<^verbatim>\<open>start_time_\<close> and \<^verbatim>\<open>total_wait_time_\<close>
  whatever they held (\<open>st0\<close>, \<open>twt0\<close>).  A worker that calls \<^verbatim>\<open>GetTask\<close> on the new
  pool blocks, the pool being not started; when an \<^verbatim>\<open>AddTask\<close> wakes it, it adds
  \<open>wait_end - max wait_start st0\<close> to \<open>twt0\<close>, so the counter can hold any value
  afterwards.
\<close>

theorem ThreadPool_new_leaves_times_unset:
  "started (ThreadPool_new n st0 twt0 :: ('a, 'w::len) ThreadPool) = False
   \<and> shutting_down (ThreadPool_new n st0 twt0 :: ('a, 'w) ThreadPool) = False
   \<and> waiting_count (ThreadPool_new n st0 twt0 :: ('a, 'w) ThreadPool) = 0
   \<and> start_time (ThreadPool_new n st0 twt0 :: ('a, 'w) ThreadPool) = st0
   \<and> total_wait_time (ThreadPool_new n st0 twt0 :: ('a, 'w) ThreadPool) = twt0
   \<and> total_wait_time (outcome_state (fst (GetTask [(wait_start, \<lambda>q. fst (AddTask task q), wait_end)]
         (ThreadPool_new n st0 twt0 :: ('a, 'w) ThreadPool))))
       = twt0 + (wait_end - max wait_start st0)
   \<and> (\<forall>v. \<exists>twt. total_wait_time (outcome_state (fst (GetTask [(wait_start, \<lambda>q. fst (AddTask task q), wait_end)]
         (ThreadPool_new n st0 twt :: ('a, 'w) ThreadPool)))) = v)"
proof -
  let ?p = "\<lambda>twt. ThreadPool_new n st0 twt :: ('a, 'w) ThreadPool"
  have run: "total_wait_time (outcome_state (fst (GetTask [(wait_start, \<lambda>q. fst (AddTask task q), wait_end)] (?p twt))))
       = twt + (wait_end - max wait_start st0)" for twt
    apply (subst GetTask_unfold)
    apply (simp add: ThreadPool_new_def)
    apply (subst GetTask_unfold)
    apply (simp add: GetTask_sleep_def GetTask_wake_def AddTask_def Let_def)
    done
  have any: "\<exists>twt. total_wait_time (outcome_state (fst (GetTask [(wait_start, \<lambda>q. fst (AddTask task q), wait_end)] (?p twt)))) = v" for v
    by (rule exI [of _ "v - (wait_end - max wait_start st0)"]) (simp add: run)
  show ?thesis using run any by (simp add: ThreadPool_new_def)
qed



subsection \<open>The workers' invariant\<close>

lemma total_upd:
  assumes "w < n"
  shows "total n (g(w := x)) f = total n g f + (f x - f (g w))"
proof -
  have "(\<Sum>u<n. f ((g(w := x)) u)) = (\<Sum>u<n. f (g u) + (if u = w then f x - f (g w) else 0))"
    by (rule sum.cong) auto
  also have "\<dots> = (\<Sum>u<n. f (g u)) + (\<Sum>u<n. if u = w then f x - f (g w) else 0)"
    by (rule sum.distrib)
  also have "(\<Sum>u<n. if u = w then f x - f (g w) else 0) = f x - f (g w)"
    using assms by (simp add: sum.delta)
  finally show ?thesis by (simp add: total_def)
qed

lemma total_nonneg: "(\<And>x. 0 \<le> f x) \<Longrightarrow> 0 \<le> total n g f"
  unfolding total_def by (rule sum_nonneg) simp

lemma total_ge: "(\<And>x. 0 \<le> f x) \<Longrightarrow> u < n \<Longrightarrow> f (g u) \<le> total n g f"
  unfolding total_def by (rule member_le_sum) simp_all

lemma holds_nonneg [simp]: "0 \<le> holds t f" by (simp add: holds_def)
lemma pre_owner_nonneg [simp]: "0 \<le> pre_owner t f" by (simp add: pre_owner_def)
lemma pending_nonneg [simp]: "0 \<le> pending t f" by (simp add: pending_def)

lemma total_holds_nonneg [simp]: "0 \<le> total n g (holds t)" by (rule total_nonneg) simp
lemma total_pre_nonneg [simp]: "0 \<le> total n g (pre_owner t)" by (rule total_nonneg) simp
lemma total_pending_nonneg [simp]: "0 \<le> total n g (pending t)" by (rule total_nonneg) simp

lemma total_const0 [simp]: "total n (\<lambda>u. c) f = int n * f c"
  by (simp add: total_def)

lemma invariant_initial:
  "num_threads < 2 ^ LENGTH('w) \<Longrightarrow> invariant (initial_system num_threads st0 twt0 :: ('a, 'w::len) system)"
  by (auto simp: invariant_def inv_lock_def inv_count_def inv_life_def inv_slot_def inv_found_def
      inv_unique_def inv_index_def initial_system_def WorkStealingThreadPool_new_def num_def
      initial_frame_def holds_def pre_owner_def pending_def own_registered_def locked_def)

lemma inv_lock_update:
  assumes "inv_lock s" "w < num s" "num s' = num s" "frames s' = (frames s)(w := f')"
    and "(work_steal_lock s' = work_steal_lock s \<and> (pc f' \<in> locked \<longleftrightarrow> pc (frames s w) \<in> locked))
         \<or> (work_steal_lock s = None \<and> work_steal_lock s' = Some w \<and> pc f' \<in> locked)
         \<or> (pc (frames s w) \<in> locked \<and> work_steal_lock s' = None \<and> pc f' \<notin> locked)"
  shows "inv_lock s'"
proof -
  let ?f = "frames s w"
  have held: "\<And>u. work_steal_lock s = Some u \<Longrightarrow> u < num s \<and> pc (frames s u) \<in> locked"
    and holder: "\<And>u. u < num s \<Longrightarrow> pc (frames s u) \<in> locked \<Longrightarrow> work_steal_lock s = Some u"
    using assms(1) unfolding inv_lock_def by blast+
  have fr: "\<And>u. u \<noteq> w \<Longrightarrow> frames s' u = frames s u" "frames s' w = f'"
    using assms(4) by simp_all
  from assms(5) consider
      (same) "work_steal_lock s' = work_steal_lock s" "pc f' \<in> locked \<longleftrightarrow> pc ?f \<in> locked"
    | (acquire) "work_steal_lock s = None" "work_steal_lock s' = Some w" "pc f' \<in> locked"
    | (release) "pc ?f \<in> locked" "work_steal_lock s' = None" "pc f' \<notin> locked"
    by (elim disjE conjE) blast+
  then show ?thesis
  proof cases
    case same
    have "u < num s' \<and> pc (frames s' u) \<in> locked" if "work_steal_lock s' = Some u" for u
      using that held [of u] same fr assms(3) by (cases "u = w") simp_all
    moreover have "work_steal_lock s' = Some u" if "u < num s'" "pc (frames s' u) \<in> locked" for u
      using that holder [of u] same fr assms(3) by (cases "u = w") simp_all
    ultimately show ?thesis unfolding inv_lock_def by blast
  next
    case acquire
    have "u < num s' \<and> pc (frames s' u) \<in> locked" if "work_steal_lock s' = Some u" for u
      using that acquire fr assms(2,3) by simp
    moreover have "work_steal_lock s' = Some u" if "u < num s'" "pc (frames s' u) \<in> locked" for u
      using that holder [of u] acquire fr assms(3) by (cases "u = w") simp_all
    ultimately show ?thesis unfolding inv_lock_def by blast
  next
    case release
    from holder [OF assms(2) release(1)] have hw: "work_steal_lock s = Some w" .
    have "u < num s' \<and> pc (frames s' u) \<in> locked" if "work_steal_lock s' = Some u" for u
      using that release by simp
    moreover have "work_steal_lock s' = Some u" if "u < num s'" "pc (frames s' u) \<in> locked" for u
      using that holder [of u] hw release fr assms(3) by (cases "u = w") simp_all
    ultimately show ?thesis unfolding inv_lock_def by blast
  qed
qed

lemma inv_count_update:
  assumes "inv_count s" "w < num s" "num s' = num s" "frames s' = (frames s)(w := f')"
    and "\<And>t. ref_count s' t = ref_count s t + (holds t f' - holds t (frames s w))"
  shows "inv_count s'"
  using assms unfolding inv_count_def by (simp add: total_upd)

lemma inv_life_update:
  assumes "inv_life s" "w < num s" "num s' = num s" "frames s' = (frames s)(w := f')"
    and "\<And>t. int (count_list (tasks (pool s')) t) + pre_owner t f'
              + (if 0 < ref_count s' t then 1 else 0) + pending t f' + int (finalized s' t)
              - (if t \<in> submitted s' then 1 else 0)
            = int (count_list (tasks (pool s)) t) + pre_owner t (frames s w)
              + (if 0 < ref_count s t then 1 else 0) + pending t (frames s w) + int (finalized s t)
              - (if t \<in> submitted s then 1 else 0)"
  shows "inv_life s'"
  unfolding inv_life_def
proof
  fix t
  from assms(1) have a: "int (count_list (tasks (pool s)) t) + total (num s) (frames s) (pre_owner t)
           + (if 0 < ref_count s t then 1 else 0) + total (num s) (frames s) (pending t)
           + int (finalized s t)
         = (if t \<in> submitted s then 1 else 0)"
    unfolding inv_life_def by blast
  have b: "total (num s') (frames s') (pre_owner t)
      = total (num s) (frames s) (pre_owner t) + (pre_owner t f' - pre_owner t (frames s w))"
    "total (num s') (frames s') (pending t)
      = total (num s) (frames s) (pending t) + (pending t f' - pending t (frames s w))"
    using assms(2,3,4) by (simp_all add: total_upd)
  from a assms(5) [of t] show "int (count_list (tasks (pool s')) t) + total (num s') (frames s') (pre_owner t)
           + (if 0 < ref_count s' t then 1 else 0) + total (num s') (frames s') (pending t)
           + int (finalized s' t)
         = (if t \<in> submitted s' then 1 else 0)"
    unfolding b by linarith
qed

lemma inv_slot_update:
  assumes "inv_slot s" "w < num s" "num s' = num s" "frames s' = (frames s)(w := f')"
    and "(threads (pool s') = threads (pool s)
           \<and> (pc (frames s w) \<in> published \<longrightarrow>
                 stealing_task f' = stealing_task (frames s w) \<and> pc f' \<in> published))
         \<or> threads (pool s') = (threads (pool s))[w := None]
         \<or> (threads (pool s') = (threads (pool s))[w := stealing_task f'] \<and> pc f' \<in> published)"
  shows "inv_slot s'"
  unfolding inv_slot_def
proof (intro allI impI)
  fix u t assume u: "u < num s'" and t: "threads (pool s') ! u = Some t"
  have wl: "w < length (threads (pool s))" using assms(2) by (simp add: num_def)
  show "stealing_task (frames s' u) = Some t \<and> pc (frames s' u) \<in> {AtUnlockRegister, AtRun, AtClear}"
  proof (cases "u = w")
    case True
    from assms(5) show ?thesis
    proof (elim disjE conjE)
      assume same: "threads (pool s') = threads (pool s)"
        and keep: "pc (frames s w) \<in> published \<longrightarrow>
                 stealing_task f' = stealing_task (frames s w) \<and> pc f' \<in> published"
      from assms(1,2) t same True
      have "stealing_task (frames s w) = Some t \<and> pc (frames s w) \<in> published"
        unfolding inv_slot_def published_def by auto
      with keep show ?thesis using True assms(4) unfolding published_def by auto
    next
      assume "threads (pool s') = (threads (pool s))[w := None]"
      with t True wl show ?thesis by simp
    next
      assume "threads (pool s') = (threads (pool s))[w := stealing_task f']" "pc f' \<in> published"
      with t True wl assms(4) show ?thesis by (simp add: published_def)
    qed
  next
    case False
    with assms(5) t have "threads (pool s) ! u = Some t" by auto
    with assms(1,3) u False assms(4) show ?thesis unfolding inv_slot_def by auto
  qed
qed

lemma inv_found_update:
  assumes "inv_found s" "w < num s" "num s' = num s" "frames s' = (frames s)(w := f')"
    and keep: "\<And>v. stealing_task (frames s w) = Some v \<and> pc (frames s w) \<in> calm \<Longrightarrow>
           (stealing_task f' = Some v \<and> pc f' \<in> calm)
           \<or> (\<forall>u < num s. u \<noteq> w \<longrightarrow> pc (frames s u) \<noteq> AtFound)"
    and new: "\<And>v. pc f' = AtFound \<and> steal_from_task f' = Some v \<Longrightarrow>
           \<exists>u < num s. u \<noteq> w \<and> stealing_task (frames s u) = Some v \<and> pc (frames s u) \<in> calm"
  shows "inv_found s'"
  unfolding inv_found_def
proof (intro allI impI)
  fix u0 v assume u0: "u0 < num s'"
    and at: "pc (frames s' u0) = AtFound \<and> steal_from_task (frames s' u0) = Some v"
  show "\<exists>u<num s'. stealing_task (frames s' u) = Some v
          \<and> pc (frames s' u) \<in> {AtRun, AtClear, AtLoopTest, AtLockFind, AtLockOwn}"
  proof (cases "u0 = w")
    case True
    with at assms(4) have "pc f' = AtFound \<and> steal_from_task f' = Some v" by simp
    from new [OF this] obtain u where "u < num s" "u \<noteq> w" "stealing_task (frames s u) = Some v"
      "pc (frames s u) \<in> calm" by blast
    with assms(3,4) show ?thesis by (auto simp: calm_def)
  next
    case False
    with at assms(4) have at0: "pc (frames s u0) = AtFound \<and> steal_from_task (frames s u0) = Some v"
      by simp
    with assms(1,3) u0 obtain u where u: "u < num s" "stealing_task (frames s u) = Some v"
      "pc (frames s u) \<in> calm" unfolding inv_found_def calm_def by auto
    show ?thesis
    proof (cases "u = w")
      case True
      with u keep [of v] have "(stealing_task f' = Some v \<and> pc f' \<in> calm)
           \<or> (\<forall>u < num s. u \<noteq> w \<longrightarrow> pc (frames s u) \<noteq> AtFound)" by simp
      with at0 u0 False assms(3) have "stealing_task f' = Some v \<and> pc f' \<in> calm" by auto
      with assms(2,3,4) show ?thesis
        by (intro exI [of _ w]) (simp add: calm_def)
    next
      case False
      with u assms(3,4) show ?thesis by (auto simp: calm_def)
    qed
  qed
qed

lemma inv_unique_update:
  assumes "inv_unique s" "w < num s" "num s' = num s" "frames s' = (frames s)(w := f')"
    and "\<And>t. stealing_task f' = Some t \<and> pc f' \<in> active \<Longrightarrow>
           (stealing_task (frames s w) = Some t \<and> pc (frames s w) \<in> active)
           \<or> (\<forall>u < num s. u \<noteq> w \<longrightarrow> \<not> (stealing_task (frames s u) = Some t \<and> pc (frames s u) \<in> active))"
  shows "inv_unique s'"
  unfolding inv_unique_def active_def [symmetric]
proof (intro allI impI)
  fix u v t
  assume u: "u < num s'" and v: "v < num s'"
    and h: "stealing_task (frames s' u) = Some t \<and> pc (frames s' u) \<in> active
         \<and> stealing_task (frames s' v) = Some t \<and> pc (frames s' v) \<in> active"
  have old: "\<And>a b. a < num s \<Longrightarrow> b < num s \<Longrightarrow> stealing_task (frames s a) = Some t \<Longrightarrow>
     pc (frames s a) \<in> active \<Longrightarrow> stealing_task (frames s b) = Some t \<Longrightarrow> pc (frames s b) \<in> active
     \<Longrightarrow> a = b"
    using assms(1) unfolding inv_unique_def active_def [symmetric] by blast
  show "u = v"
  proof (cases "u = w"; cases "v = w")
    assume "u = w" "v \<noteq> w"
    with h assms(4) have f': "stealing_task f' = Some t \<and> pc f' \<in> active"
      and b: "stealing_task (frames s v) = Some t" "pc (frames s v) \<in> active" by simp_all
    from assms(5) [OF f'] b v \<open>v \<noteq> w\<close> assms(3)
    have "stealing_task (frames s w) = Some t \<and> pc (frames s w) \<in> active" by auto
    with old [of w v] b v assms(2,3) have "w = v" by simp
    with \<open>v \<noteq> w\<close> show ?thesis by simp
  next
    assume "u \<noteq> w" "v = w"
    with h assms(4) have f': "stealing_task f' = Some t \<and> pc f' \<in> active"
      and b: "stealing_task (frames s u) = Some t" "pc (frames s u) \<in> active" by simp_all
    from assms(5) [OF f'] b u \<open>u \<noteq> w\<close> assms(3)
    have "stealing_task (frames s w) = Some t \<and> pc (frames s w) \<in> active" by auto
    with old [of w u] b u assms(2,3) have "w = u" by simp
    with \<open>u \<noteq> w\<close> show ?thesis by simp
  next
    assume "u \<noteq> w" "v \<noteq> w"
    with h assms(4) u v assms(3) old [of u v] show ?thesis by simp
  qed simp
qed

lemma inv_index_update:
  assumes "inv_index s" "num s' = num s"
    and "steal_index (pool s') = steal_index (pool s) \<or> unat (steal_index (pool s')) < num s"
  shows "inv_index s'"
  using assms unfolding inv_index_def by auto

lemma invariant_update:
  assumes "invariant s" "w < num s"
    and F: "frames s' = (frames s)(w := f')"
    and N: "length (threads (pool s')) = length (threads (pool s))"
    and Fl: "failure s' = None"
    and L: "(work_steal_lock s' = work_steal_lock s \<and> (pc f' \<in> locked \<longleftrightarrow> pc (frames s w) \<in> locked))
         \<or> (work_steal_lock s = None \<and> work_steal_lock s' = Some w \<and> pc f' \<in> locked)
         \<or> (pc (frames s w) \<in> locked \<and> work_steal_lock s' = None \<and> pc f' \<notin> locked)"
    and C: "\<And>t. ref_count s' t = ref_count s t + (holds t f' - holds t (frames s w))"
    and Li: "\<And>t. int (count_list (tasks (pool s')) t) + pre_owner t f'
              + (if 0 < ref_count s' t then 1 else 0) + pending t f' + int (finalized s' t)
              - (if t \<in> submitted s' then 1 else 0)
            = int (count_list (tasks (pool s)) t) + pre_owner t (frames s w)
              + (if 0 < ref_count s t then 1 else 0) + pending t (frames s w) + int (finalized s t)
              - (if t \<in> submitted s then 1 else 0)"
    and S: "(threads (pool s') = threads (pool s)
           \<and> (pc (frames s w) \<in> published \<longrightarrow>
                 stealing_task f' = stealing_task (frames s w) \<and> pc f' \<in> published))
         \<or> threads (pool s') = (threads (pool s))[w := None]
         \<or> (threads (pool s') = (threads (pool s))[w := stealing_task f'] \<and> pc f' \<in> published)"
    and Fk: "\<And>v. stealing_task (frames s w) = Some v \<and> pc (frames s w) \<in> calm \<Longrightarrow>
           (stealing_task f' = Some v \<and> pc f' \<in> calm)
           \<or> (\<forall>u < num s. u \<noteq> w \<longrightarrow> pc (frames s u) \<noteq> AtFound)"
    and Fn: "\<And>v. pc f' = AtFound \<and> steal_from_task f' = Some v \<Longrightarrow>
           \<exists>u < num s. u \<noteq> w \<and> stealing_task (frames s u) = Some v \<and> pc (frames s u) \<in> calm"
    and U: "\<And>t. stealing_task f' = Some t \<and> pc f' \<in> active \<Longrightarrow>
           (stealing_task (frames s w) = Some t \<and> pc (frames s w) \<in> active)
           \<or> (\<forall>u < num s. u \<noteq> w \<longrightarrow> \<not> (stealing_task (frames s u) = Some t \<and> pc (frames s u) \<in> active))"
    and I: "steal_index (pool s') = steal_index (pool s) \<or> unat (steal_index (pool s')) < num s"
  shows "invariant s'"
proof -
  have n: "num s' = num s" using N by (simp add: num_def)
  from assms(1) have i: "inv_lock s" "inv_count s" "inv_life s" "inv_slot s" "inv_found s"
    "inv_unique s" "inv_index s"
    unfolding invariant_def by blast+
  note inv_lock_update [OF i(1) assms(2) n F L]
    inv_count_update [OF i(2) assms(2) n F C]
    inv_life_update [OF i(3) assms(2) n F Li]
    inv_slot_update [OF i(4) assms(2) n F S]
    inv_found_update [OF i(5) assms(2) n F Fk Fn]
    inv_unique_update [OF i(6) assms(2) n F U]
    inv_index_update [OF i(7) n I]
  with Fl show ?thesis unfolding invariant_def by blast
qed

lemma others_not_found:
  assumes "inv_lock s" "work_steal_lock s = None \<or> work_steal_lock s = Some w"
  shows "\<forall>u < num s. u \<noteq> w \<longrightarrow> pc (frames s u) \<noteq> AtFound"
proof (intro allI impI notI)
  fix u assume u: "u < num s" "u \<noteq> w" "pc (frames s u) = AtFound"
  from u(3) have "pc (frames s u) \<in> locked" by (simp add: locked_def)
  with u(1) assms(1) have "work_steal_lock s = Some u"
    unfolding inv_lock_def by blast
  with assms(2) u(2) show False by auto
qed

lemma holder_of_lock:
  assumes "invariant s" "w < num s" "pc (frames s w) \<in> locked"
  shows "work_steal_lock s = Some w"
  using assms unfolding invariant_def inv_lock_def by blast

lemmas pc_sets = holds_def pre_owner_def pending_def own_registered_def locked_def
  calm_def active_def published_def

lemma Run_step_AtRun:
  assumes "invariant s" "w < num s" "pc (frames s w) = AtRun" "Run_step w a b s = Some s'"
  shows "invariant s'"
proof -
  let ?f' = "(frames s w)\<lparr>pc := AtClear\<rparr>"
  have fl: "failure s = None" using assms(1) unfolding invariant_def by blast
  have s': "s' = set_frame w ?f' s" using assms by (simp add: Run_step_def unlock_step_def)
  show ?thesis
    by (rule invariant_update [OF assms(1,2), where f' = ?f'])
       (use assms(3) fl  in \<open>simp_all add: s' set_frame_def pc_sets\<close>)
qed

lemma Run_step_AtStealFrom:
  assumes "invariant s" "w < num s" "pc (frames s w) = AtStealFrom" "Run_step w a b s = Some s'"
  shows "invariant s'"
proof -
  let ?f' = "(frames s w)\<lparr>pc := AtLockVictim\<rparr>"
  have fl: "failure s = None" using assms(1) unfolding invariant_def by blast
  have s': "s' = set_frame w ?f' s" using assms by (simp add: Run_step_def unlock_step_def)
  show ?thesis
    by (rule invariant_update [OF assms(1,2), where f' = ?f'])
       (use assms(3) fl  in \<open>simp_all add: s' set_frame_def pc_sets\<close>)
qed

lemma Run_step_AtLockRegister:
  assumes "invariant s" "w < num s" "pc (frames s w) = AtLockRegister" "Run_step w a b s = Some s'"
  shows "invariant s'"
proof -
  let ?f' = "(frames s w)\<lparr>pc := AtIncOwn\<rparr>"
  have fl: "failure s = None" using assms(1) unfolding invariant_def by blast
  have free: "work_steal_lock s = None"
    using assms(3,4) by (simp add: Run_step_def lock_step_def split: option.splits)
  have s': "s' = set_frame w ?f' (s\<lparr>work_steal_lock := Some w\<rparr>)"
    using assms(3,4) by (simp add: Run_step_def lock_step_def split: option.splits)
  have il: "inv_lock s" using assms(1) unfolding invariant_def by blast
  have nf: "\<forall>u < num s. u \<noteq> w \<longrightarrow> pc (frames s u) \<noteq> AtFound"
    using others_not_found [OF il] free by blast
  show ?thesis
    by (rule invariant_update [OF assms(1,2), where f' = ?f'])
       (use assms(3) fl free nf in \<open>simp_all add: s' set_frame_def pc_sets\<close>)
qed

lemma Run_step_AtLockVictim:
  assumes "invariant s" "w < num s" "pc (frames s w) = AtLockVictim" "Run_step w a b s = Some s'"
  shows "invariant s'"
proof -
  let ?f' = "(frames s w)\<lparr>pc := AtDecVictim\<rparr>"
  have fl: "failure s = None" using assms(1) unfolding invariant_def by blast
  have free: "work_steal_lock s = None"
    using assms(3,4) by (simp add: Run_step_def lock_step_def split: option.splits)
  have s': "s' = set_frame w ?f' (s\<lparr>work_steal_lock := Some w\<rparr>)"
    using assms(3,4) by (simp add: Run_step_def lock_step_def split: option.splits)
  have il: "inv_lock s" using assms(1) unfolding invariant_def by blast
  have nf: "\<forall>u < num s. u \<noteq> w \<longrightarrow> pc (frames s u) \<noteq> AtFound"
    using others_not_found [OF il] free by blast
  show ?thesis
    by (rule invariant_update [OF assms(1,2), where f' = ?f'])
       (use assms(3) fl free nf in \<open>simp_all add: s' set_frame_def pc_sets\<close>)
qed

lemma Run_step_AtLockOwn:
  assumes "invariant s" "w < num s" "pc (frames s w) = AtLockOwn" "Run_step w a b s = Some s'"
  shows "invariant s'"
proof -
  let ?f' = "(frames s w)\<lparr>pc := AtDecOwn\<rparr>"
  have fl: "failure s = None" using assms(1) unfolding invariant_def by blast
  have free: "work_steal_lock s = None"
    using assms(3,4) by (simp add: Run_step_def lock_step_def split: option.splits)
  have s': "s' = set_frame w ?f' (s\<lparr>work_steal_lock := Some w\<rparr>)"
    using assms(3,4) by (simp add: Run_step_def lock_step_def split: option.splits)
  have il: "inv_lock s" using assms(1) unfolding invariant_def by blast
  have nf: "\<forall>u < num s. u \<noteq> w \<longrightarrow> pc (frames s u) \<noteq> AtFound"
    using others_not_found [OF il] free by blast
  show ?thesis
    by (rule invariant_update [OF assms(1,2), where f' = ?f'])
       (use assms(3) fl free nf in \<open>simp_all add: s' set_frame_def pc_sets\<close>)
qed

lemma Run_step_AtLockFind:
  assumes "invariant s" "w < num s" "pc (frames s w) = AtLockFind" "Run_step w a b s = Some s'"
  shows "invariant s'"
proof -
  let ?f' = "(frames s w)\<lparr>pc := AtScan, scan_left := unat (GetThreadCount (pool s))\<rparr>"
  have fl: "failure s = None" using assms(1) unfolding invariant_def by blast
  have free: "work_steal_lock s = None"
    using assms(3,4) by (simp add: Run_step_def lock_step_def split: option.splits)
  have s': "s' = set_frame w ?f' (s\<lparr>work_steal_lock := Some w\<rparr>)"
    using assms(3,4) by (simp add: Run_step_def lock_step_def split: option.splits)
  have il: "inv_lock s" using assms(1) unfolding invariant_def by blast
  have nf: "\<forall>u < num s. u \<noteq> w \<longrightarrow> pc (frames s u) \<noteq> AtFound"
    using others_not_found [OF il] free by blast
  show ?thesis
    by (rule invariant_update [OF assms(1,2), where f' = ?f'])
       (use assms(3) fl free nf in \<open>simp_all add: s' set_frame_def pc_sets\<close>)
qed

lemma Run_step_AtUnlockRegister:
  assumes "invariant s" "w < num s" "pc (frames s w) = AtUnlockRegister" "Run_step w a b s = Some s'"
  shows "invariant s'"
proof -
  let ?f' = "(frames s w)\<lparr>pc := AtRun\<rparr>"
  have fl: "failure s = None" using assms(1) unfolding invariant_def by blast
  have s': "s' = set_frame w ?f' (s\<lparr>work_steal_lock := None\<rparr>)" using assms by (simp add: Run_step_def unlock_step_def)
  show ?thesis
    by (rule invariant_update [OF assms(1,2), where f' = ?f'])
       (use assms(3) fl  in \<open>simp_all add: s' set_frame_def pc_sets\<close>)
qed

lemma Run_step_AtNotFound:
  assumes "invariant s" "w < num s" "pc (frames s w) = AtNotFound" "Run_step w a b s = Some s'"
  shows "invariant s'"
proof -
  let ?f' = "(frames s w)\<lparr>pc := AtLockOwn\<rparr>"
  have fl: "failure s = None" using assms(1) unfolding invariant_def by blast
  have s': "s' = set_frame w ?f' (s\<lparr>work_steal_lock := None\<rparr>)" using assms by (simp add: Run_step_def unlock_step_def)
  show ?thesis
    by (rule invariant_update [OF assms(1,2), where f' = ?f'])
       (use assms(3) fl  in \<open>simp_all add: s' set_frame_def pc_sets\<close>)
qed

lemma Run_step_AtUnlockFind:
  assumes "invariant s" "w < num s" "pc (frames s w) = AtUnlockFind" "Run_step w a b s = Some s'"
  shows "invariant s'"
proof -
  let ?f' = "(frames s w)\<lparr>pc := AtStealFrom\<rparr>"
  have fl: "failure s = None" using assms(1) unfolding invariant_def by blast
  have s': "s' = set_frame w ?f' (s\<lparr>work_steal_lock := None\<rparr>)" using assms by (simp add: Run_step_def unlock_step_def)
  show ?thesis
    by (rule invariant_update [OF assms(1,2), where f' = ?f'])
       (use assms(3) fl  in \<open>simp_all add: s' set_frame_def pc_sets\<close>)
qed

lemma Run_step_AtUnlockVictim:
  assumes "invariant s" "w < num s" "pc (frames s w) = AtUnlockVictim" "Run_step w a b s = Some s'"
  shows "invariant s'"
proof -
  let ?f' = "(frames s w)\<lparr>pc := AtFinalizeVictim\<rparr>"
  have fl: "failure s = None" using assms(1) unfolding invariant_def by blast
  have s': "s' = set_frame w ?f' (s\<lparr>work_steal_lock := None\<rparr>)" using assms by (simp add: Run_step_def unlock_step_def)
  show ?thesis
    by (rule invariant_update [OF assms(1,2), where f' = ?f'])
       (use assms(3) fl  in \<open>simp_all add: s' set_frame_def pc_sets\<close>)
qed

lemma Run_step_AtUnlockOwn:
  assumes "invariant s" "w < num s" "pc (frames s w) = AtUnlockOwn" "Run_step w a b s = Some s'"
  shows "invariant s'"
proof -
  let ?f' = "(frames s w)\<lparr>pc := AtFinalizeOwn\<rparr>"
  have fl: "failure s = None" using assms(1) unfolding invariant_def by blast
  have s': "s' = set_frame w ?f' (s\<lparr>work_steal_lock := None\<rparr>)" using assms by (simp add: Run_step_def unlock_step_def)
  show ?thesis
    by (rule invariant_update [OF assms(1,2), where f' = ?f'])
       (use assms(3) fl  in \<open>simp_all add: s' set_frame_def pc_sets\<close>)
qed

lemma rc_ge_holds:
  assumes "invariant s" "w < num s"
  shows "holds t (frames s w) \<le> ref_count s t"
proof -
  from assms(1) have "ref_count s t = total (num s) (frames s) (holds t)"
    unfolding invariant_def inv_count_def by blast
  moreover have "holds t (frames s w) \<le> total (num s) (frames s) (holds t)"
    by (rule total_ge [OF _ assms(2)]) simp
  ultimately show ?thesis by simp
qed

lemma rc_nonneg:
  assumes "invariant s"
  shows "0 \<le> ref_count s t"
proof -
  from assms(1) have "ref_count s t = total (num s) (frames s) (holds t)"
    unfolding invariant_def inv_count_def by blast
  then show ?thesis by simp
qed

lemma life_eq:
  assumes "invariant s"
  shows "int (count_list (tasks (pool s)) t) + total (num s) (frames s) (pre_owner t)
           + (if 0 < ref_count s t then 1 else 0) + total (num s) (frames s) (pending t)
           + int (finalized s t)
         = (if t \<in> submitted s then 1 else 0)"
  using assms unfolding invariant_def inv_life_def by blast

lemma life_le:
  assumes "invariant s"
  shows "int (count_list (tasks (pool s)) t) + total (num s) (frames s) (pre_owner t)
           + (if 0 < ref_count s t then 1 else 0) + total (num s) (frames s) (pending t)
           + int (finalized s t) \<le> 1"
  unfolding life_eq [OF assms] by simp

lemma life_pos:
  assumes "invariant s" "0 < ref_count s t"
  shows "int (count_list (tasks (pool s)) t) + total (num s) (frames s) (pre_owner t)
           + total (num s) (frames s) (pending t) + int (finalized s t) \<le> 0"
  using life_le [OF assms(1), of t] assms(2) by simp

lemma pre_owner_rc0:
  assumes "invariant s" "w < num s" "pre_owner t (frames s w) = 1"
  shows "ref_count s t = 0"
proof -
  have "pre_owner t (frames s w) \<le> total (num s) (frames s) (pre_owner t)"
    by (rule total_ge [OF _ assms(2)]) simp
  with assms(3) have p: "1 \<le> total (num s) (frames s) (pre_owner t)" by simp
  have q: "0 \<le> total (num s) (frames s) (pending t)" by simp
  have "\<not> 0 < ref_count s t"
  proof
    assume "0 < ref_count s t"
    from life_pos [OF assms(1) this] p q show False by linarith
  qed
  with rc_nonneg [OF assms(1), of t] show ?thesis by simp
qed

lemma queued_not_owned:
  assumes "invariant s" "u < num s" "t \<in> set (tasks (pool s))"
  shows "\<not> (stealing_task (frames s u) = Some t \<and> pc (frames s u) \<in> active)"
proof
  assume own: "stealing_task (frames s u) = Some t \<and> pc (frames s u) \<in> active"
  from assms(3) have "count_list (tasks (pool s)) t \<noteq> 0" by (simp add: count_list_0_iff)
  then have c: "1 \<le> int (count_list (tasks (pool s)) t)" by linarith
  have p: "0 \<le> total (num s) (frames s) (pre_owner t)"
    and q: "0 \<le> total (num s) (frames s) (pending t)" by simp_all
  have pu: "pre_owner t (frames s u) \<le> total (num s) (frames s) (pre_owner t)"
    by (rule total_ge [OF _ assms(2)]) simp
  have z2: "\<not> 0 < ref_count s t"
  proof
    assume "0 < ref_count s t"
    from life_pos [OF assms(1) this] c p q show False by linarith
  qed
  have r: "0 \<le> (if 0 < ref_count s t then 1 else 0 :: int)" by simp
  from life_le [OF assms(1), of t] c q r
  have "total (num s) (frames s) (pre_owner t) \<le> 0" by linarith
  with pu have "pre_owner t (frames s u) \<le> 0" by simp
  moreover from z2 rc_ge_holds [OF assms(1,2), of t] have "holds t (frames s u) \<le> 0" by simp
  moreover from own have "1 \<le> pre_owner t (frames s u) \<or> 1 \<le> holds t (frames s u)"
    unfolding active_def pre_owner_def holds_def by auto
  ultimately show False by linarith
qed

lemma Run_step_AtCheckNoTask:
  assumes "invariant s" "w < num s" "pc (frames s w) = AtCheckNoTask" "Run_step w a b s = Some s'"
  shows "invariant s'"
proof -
  let ?f' = "(frames s w)\<lparr>pc := AtLockRegister\<rparr>"
  have fl: "failure s = None" using assms(1) unfolding invariant_def by blast
  have "inv_slot s" using assms(1) unfolding invariant_def by blast
  with assms(2,3) have slot: "threads (pool s) ! w = None"
    unfolding inv_slot_def by (cases "threads (pool s) ! w") auto
  have s': "s' = set_frame w ?f' s" using assms slot by (simp add: Run_step_def Let_def)
  show ?thesis
    by (rule invariant_update [OF assms(1,2), where f' = ?f'])
       (use assms(3) fl in \<open>simp_all add: s' set_frame_def pc_sets\<close>)
qed

lemma Run_step_AtLoopTest:
  assumes "invariant s" "w < num s" "pc (frames s w) = AtLoopTest" "Run_step w a b s = Some s'"
  shows "invariant s'"
proof (cases "GetTaskCount (pool s) = 0")
  case True
  let ?f' = "(frames s w)\<lparr>pc := AtLockFind, steal_from_task := None\<rparr>"
  have fl: "failure s = None" using assms(1) unfolding invariant_def by blast
  have s': "s' = set_frame w ?f' s" using assms True by (simp add: Run_step_def Let_def)
  show ?thesis
    by (rule invariant_update [OF assms(1,2), where f' = ?f'])
       (use assms(3) fl in \<open>simp_all add: s' set_frame_def pc_sets\<close>)
next
  case False
  let ?f' = "(frames s w)\<lparr>pc := AtLockOwn\<rparr>"
  have fl: "failure s = None" using assms(1) unfolding invariant_def by blast
  have s': "s' = set_frame w ?f' s" using assms False by (simp add: Run_step_def Let_def)
  show ?thesis
    by (rule invariant_update [OF assms(1,2), where f' = ?f'])
       (use assms(3) fl in \<open>simp_all add: s' set_frame_def pc_sets\<close>)
qed

lemma Run_step_AtClear:
  assumes "invariant s" "w < num s" "pc (frames s w) = AtClear" "Run_step w a b s = Some s'"
  shows "invariant s'"
proof -
  let ?f' = "(frames s w)\<lparr>pc := AtLoopTest\<rparr>"
  have fl: "failure s = None" using assms(1) unfolding invariant_def by blast
  have s': "s' = set_frame w ?f' (s\<lparr>pool := (pool s)\<lparr>threads := (threads (pool s))[w := None]\<rparr>\<rparr>)"
    using assms by (simp add: Run_step_def Let_def)
  show ?thesis
    by (rule invariant_update [OF assms(1,2), where f' = ?f'])
       (use assms(3) fl in \<open>simp_all add: s' set_frame_def pc_sets\<close>)
qed

lemma Run_step_AtPublish:
  assumes "invariant s" "w < num s" "pc (frames s w) = AtPublish" "Run_step w a b s = Some s'"
  shows "invariant s'"
proof -
  let ?f' = "(frames s w)\<lparr>pc := AtUnlockRegister\<rparr>"
  have fl: "failure s = None" using assms(1) unfolding invariant_def by blast
  have s': "s' = set_frame w ?f'
      (s\<lparr>pool := (pool s)\<lparr>threads := (threads (pool s))[w := stealing_task (frames s w)]\<rparr>\<rparr>)"
    using assms by (simp add: Run_step_def Let_def)
  show ?thesis
    by (rule invariant_update [OF assms(1,2), where f' = ?f'])
       (use assms(3) fl in \<open>simp_all add: s' set_frame_def pc_sets\<close>)
qed

lemma Run_step_AtIncOwn:
  assumes "invariant s" "w < num s" "pc (frames s w) = AtIncOwn" "Run_step w a b s = Some s'"
  shows "invariant s'"
proof -
  let ?f' = "(frames s w)\<lparr>pc := AtPublish\<rparr>"
  have fl: "failure s = None" using assms(1) unfolding invariant_def by blast
  from assms(3,4) obtain task where task: "stealing_task (frames s w) = Some task"
    by (cases "stealing_task (frames s w)") (simp_all add: Run_step_def Let_def)
  have s': "s' = set_frame w ?f' (s\<lparr>ref_count := (ref_count s)(task := ref_count s task + 1)\<rparr>)"
    using assms task by (simp add: Run_step_def Let_def)
  have "pre_owner task (frames s w) = 1" using assms(3) task by (simp add: pre_owner_def)
  from pre_owner_rc0 [OF assms(1,2) this] have rc0: "ref_count s task = 0" .
  show ?thesis
    by (rule invariant_update [OF assms(1,2), where f' = ?f'])
       (use assms(3) fl task rc0 in \<open>simp_all add: s' set_frame_def pc_sets\<close>)
qed

lemma Run_step_AtDecVictim:
  assumes "invariant s" "w < num s" "pc (frames s w) = AtDecVictim" "Run_step w a b s = Some s'"
  shows "invariant s'"
proof -
  have fl: "failure s = None" using assms(1) unfolding invariant_def by blast
  from assms(3,4) obtain v where v: "steal_from_task (frames s w) = Some v"
    by (cases "steal_from_task (frames s w)") (simp_all add: Run_step_def Let_def)
  let ?f' = "(frames s w)\<lparr>pc := AtUnlockVictim, finalize := (ref_count s v - 1 = 0)\<rparr>"
  have s': "s' = set_frame w ?f' (s\<lparr>ref_count := (ref_count s)(v := ref_count s v - 1)\<rparr>)"
    using assms v by (simp add: Run_step_def Let_def)
  have "1 \<le> holds v (frames s w)" using assms(3) v by (simp add: holds_def)
  with rc_ge_holds [OF assms(1,2), of v] have rc: "1 \<le> ref_count s v" by simp
  show ?thesis
    by (rule invariant_update [OF assms(1,2), where f' = ?f'])
       (use assms(3) fl v rc in \<open>auto simp add: s' set_frame_def pc_sets\<close>)
qed

lemma Run_step_AtDecOwn:
  assumes "invariant s" "w < num s" "pc (frames s w) = AtDecOwn" "Run_step w a b s = Some s'"
  shows "invariant s'"
proof -
  have fl: "failure s = None" using assms(1) unfolding invariant_def by blast
  from assms(3,4) obtain v where v: "stealing_task (frames s w) = Some v"
    by (cases "stealing_task (frames s w)") (simp_all add: Run_step_def Let_def)
  let ?f' = "(frames s w)\<lparr>pc := AtUnlockOwn, finalize := (ref_count s v - 1 = 0)\<rparr>"
  have s': "s' = set_frame w ?f' (s\<lparr>ref_count := (ref_count s)(v := ref_count s v - 1)\<rparr>)"
    using assms v by (simp add: Run_step_def Let_def)
  have "1 \<le> holds v (frames s w)" using assms(3) v by (simp add: holds_def own_registered_def)
  with rc_ge_holds [OF assms(1,2), of v] have rc: "1 \<le> ref_count s v" by simp
  show ?thesis
    by (rule invariant_update [OF assms(1,2), where f' = ?f'])
       (use assms(3) fl v rc in \<open>auto simp add: s' set_frame_def pc_sets\<close>)
qed

lemma Run_step_AtFinalizeVictim:
  assumes "invariant s" "w < num s" "pc (frames s w) = AtFinalizeVictim" "Run_step w a b s = Some s'"
  shows "invariant s'"
proof -
  have fl: "failure s = None" using assms(1) unfolding invariant_def by blast
  from assms(3,4) obtain v where v: "steal_from_task (frames s w) = Some v"
    by (cases "steal_from_task (frames s w)") (simp_all add: Run_step_def Let_def)
  let ?f' = "(frames s w)\<lparr>pc := AtLoopTest\<rparr>"
  show ?thesis
  proof (cases "finalize (frames s w)")
    case True
    have s': "s' = set_frame w ?f' (s\<lparr>finalized := (finalized s)(v := Suc (finalized s v))\<rparr>)"
      using assms v True by (simp add: Run_step_def Let_def)
    show ?thesis
      by (rule invariant_update [OF assms(1,2), where f' = ?f'])
         (use assms(3) fl v True in \<open>auto simp add: s' set_frame_def pc_sets\<close>)
  next
    case False
    have s': "s' = set_frame w ?f' s"
      using assms v False by (simp add: Run_step_def Let_def)
    show ?thesis
      by (rule invariant_update [OF assms(1,2), where f' = ?f'])
         (use assms(3) fl v False in \<open>auto simp add: s' set_frame_def pc_sets\<close>)
  qed
qed

lemma Run_step_AtFinalizeOwn:
  assumes "invariant s" "w < num s" "pc (frames s w) = AtFinalizeOwn" "Run_step w a b s = Some s'"
  shows "invariant s'"
proof -
  have fl: "failure s = None" using assms(1) unfolding invariant_def by blast
  from assms(3,4) obtain v where v: "stealing_task (frames s w) = Some v"
    by (cases "stealing_task (frames s w)") (simp_all add: Run_step_def Let_def)
  let ?f' = "(frames s w)\<lparr>pc := AtGetTask\<rparr>"
  show ?thesis
  proof (cases "finalize (frames s w)")
    case True
    have s': "s' = set_frame w ?f' (s\<lparr>finalized := (finalized s)(v := Suc (finalized s v))\<rparr>)"
      using assms v True by (simp add: Run_step_def Let_def)
    show ?thesis
      by (rule invariant_update [OF assms(1,2), where f' = ?f'])
         (use assms(3) fl v True in \<open>auto simp add: s' set_frame_def pc_sets\<close>)
  next
    case False
    have s': "s' = set_frame w ?f' s"
      using assms v False by (simp add: Run_step_def Let_def)
    show ?thesis
      by (rule invariant_update [OF assms(1,2), where f' = ?f'])
         (use assms(3) fl v False in \<open>auto simp add: s' set_frame_def pc_sets\<close>)
  qed
qed

lemma Run_step_AtFound:
  assumes "invariant s" "w < num s" "pc (frames s w) = AtFound" "Run_step w a b s = Some s'"
  shows "invariant s'"
proof -
  have fl: "failure s = None" using assms(1) unfolding invariant_def by blast
  from assms(3,4) obtain v where v: "steal_from_task (frames s w) = Some v"
    by (cases "steal_from_task (frames s w)") (simp_all add: Run_step_def Let_def)
  have "inv_found s" using assms(1) unfolding invariant_def by blast
  with assms(2,3) v obtain u where u: "u < num s" "stealing_task (frames s u) = Some v"
    "pc (frames s u) \<in> calm"
    unfolding inv_found_def calm_def by blast
  have ua: "pc (frames s u) \<in> active" "pc (frames s u) \<in> own_registered" "pc (frames s u) \<noteq> AtFound"
    using u(3) unfolding calm_def active_def own_registered_def by auto
  have wa: "pc (frames s w) \<in> active"
    using assms(3) unfolding active_def own_registered_def by simp
  have ne: "stealing_task (frames s w) \<noteq> Some v"
  proof
    assume "stealing_task (frames s w) = Some v"
    moreover have "inv_unique s" using assms(1) unfolding invariant_def by blast
    ultimately have "u = w"
      using u(1,2) ua(1) wa assms(2) unfolding inv_unique_def active_def [symmetric] by blast
    with ua(3) assms(3) show False by simp
  qed
  let ?f' = "(frames s w)\<lparr>pc := AtUnlockFind\<rparr>"
  have s': "s' = set_frame w ?f' (s\<lparr>ref_count := (ref_count s)(v := ref_count s v + 1)\<rparr>)"
    using assms v ne by (simp add: Run_step_def Let_def)
  have "1 \<le> holds v (frames s u)" using u(2) ua(2) by (simp add: holds_def)
  with rc_ge_holds [OF assms(1) u(1), of v] have rc: "1 \<le> ref_count s v" by simp
  show ?thesis
    by (rule invariant_update [OF assms(1,2), where f' = ?f'])
       (use assms(3) fl v rc in \<open>auto simp add: s' set_frame_def pc_sets\<close>)
qed

lemma Run_step_AtScan:
  fixes s :: "('a, 'w::len) system"
  assumes "invariant s" "w < num s" "pc (frames s w) = AtScan" "Run_step w a b s = Some s'"
  shows "invariant s'"
proof (cases "scan_left (frames s w)")
  case 0
  have fl: "failure s = None" using assms(1) unfolding invariant_def by blast
  let ?f' = "(frames s w)\<lparr>pc := AtNotFound, steal_from_task := None\<rparr>"
  have s': "s' = set_frame w ?f' s" using assms 0 by (simp add: Run_step_def Let_def)
  show ?thesis
    by (rule invariant_update [OF assms(1,2), where f' = ?f'])
       (use assms(3) fl in \<open>simp_all add: s' set_frame_def pc_sets\<close>)
next
  case (Suc left)
  have fl: "failure s = None" using assms(1) unfolding invariant_def by blast
  let ?n = "length (threads (pool s))"
  let ?c = "(unat (steal_index (pool s)) + 1) mod ?n"
  let ?p = "(pool s)\<lparr>steal_index := of_nat ?c\<rparr>"
  have "inv_index s" using assms(1) unfolding invariant_def by blast
  with assms(2) have n: "?n < 2 ^ LENGTH('w)" and idx: "unat (steal_index (pool s)) < ?n"
    unfolding inv_index_def num_def by auto
  have body: "FindTaskToStealFrom_body (GetThreadCount (pool s)) (pool s) = (Inr (threads (pool s) ! ?c), ?p)"
    unfolding GetThreadCount_def by (rule FindTaskToStealFrom_body_in_range [OF n idx])
  have "0 < ?n" using idx by linarith
  then have c: "?c < num s" unfolding num_def by (rule mod_less_divisor)
  have uc: "unat (of_nat ?c :: 'w word) < num s"
    using c n by (simp add: unat_of_nat num_def)
  show ?thesis
  proof (cases "threads (pool s) ! ?c")
    case None
    let ?f' = "(frames s w)\<lparr>scan_left := left\<rparr>"
    have s': "s' = set_frame w ?f' (s\<lparr>pool := ?p\<rparr>)"
      using assms(3,4) Suc None by (simp add: Run_step_def Let_def body)
    show ?thesis
      by (rule invariant_update [OF assms(1,2), where f' = ?f'])
         (use assms(3) fl uc in \<open>simp_all add: s' set_frame_def pc_sets\<close>)
  next
    case (Some v)
    let ?f' = "(frames s w)\<lparr>pc := AtFound, steal_from_task := Some v\<rparr>"
    have s': "s' = set_frame w ?f' (s\<lparr>pool := ?p\<rparr>)"
      using assms(3,4) Suc Some by (simp add: Run_step_def Let_def body)
    have "inv_slot s" using assms(1) unfolding invariant_def by blast
    with c Some have owner: "stealing_task (frames s ?c) = Some v"
      and pub: "pc (frames s ?c) \<in> published"
      unfolding inv_slot_def published_def by blast+
    have lw: "work_steal_lock s = Some w"
      by (rule holder_of_lock [OF assms(1,2)]) (simp add: assms(3) locked_def)
    have notreg: "pc (frames s ?c) \<noteq> AtUnlockRegister"
    proof
      assume at: "pc (frames s ?c) = AtUnlockRegister"
      then have "pc (frames s ?c) \<in> locked" by (simp add: locked_def)
      from holder_of_lock [OF assms(1) c this] lw have "?c = w" by simp
      with at assms(3) show False by simp
    qed
    with pub have calm: "pc (frames s ?c) \<in> calm" unfolding published_def calm_def by auto
    then have "pc (frames s ?c) \<noteq> AtScan" unfolding calm_def by auto
    with assms(3) have cw: "?c \<noteq> w" by auto
    have wit: "\<exists>u<num s. u \<noteq> w \<and> stealing_task (frames s u) = Some v \<and> pc (frames s u) \<in> calm"
      using c cw owner calm by blast
    show ?thesis
    proof (rule invariant_update [OF assms(1,2), where f' = ?f'])
      fix v' assume "pc ?f' = AtFound \<and> steal_from_task ?f' = Some v'"
      then have "v' = v" by simp
      with wit show "\<exists>u<num s. u \<noteq> w \<and> stealing_task (frames s u) = Some v' \<and> pc (frames s u) \<in> calm"
        by simp
    qed (use assms(3) fl uc in \<open>simp_all add: s' set_frame_def pc_sets\<close>)
  qed
qed

lemma GetTask_once:
  "fst (GetTask [] q) =
     (if shutting_down q then Returned None q
      else if started q \<and> tasks q \<noteq> []
      then Returned (Some (hd (tasks q))) (q\<lparr>tasks := tl (tasks q)\<rparr>)
      else Blocked (q\<lparr>waiting_count := waiting_count q + 1\<rparr>))"
  by (subst GetTask_unfold) (simp add: GetTask_sleep_def Let_def)

lemma after_GetTask_invariant:
  assumes "invariant s" "w < num s"
    and at: "pc (frames s w) = AtGetTask \<or> pc (frames s w) = InGetTaskWait"
    and q: "tasks q = tasks (pool s)" "threads q = threads (pool s)"
      "steal_index q = steal_index (pool s)"
  shows "invariant (after_GetTask w (fst (GetTask [] q)) s)"
proof -
  have fl: "failure s = None" using assms(1) unfolding invariant_def by blast
  consider (exit) "shutting_down q"
    | (pop) "\<not> shutting_down q" "started q" "tasks q \<noteq> []"
    | (sleep) "\<not> shutting_down q" "\<not> (started q \<and> tasks q \<noteq> [])"
    by blast
  then show ?thesis
  proof cases
    case exit
    let ?f' = "(frames s w)\<lparr>pc := Exited\<rparr>"
    have s': "after_GetTask w (fst (GetTask [] q)) s = set_frame w ?f' (s\<lparr>pool := q\<rparr>)"
      using exit by (simp add: GetTask_once after_GetTask_def)
    show ?thesis unfolding s'
      by (rule invariant_update [OF assms(1,2), where f' = ?f'])
         (use at fl q in \<open>auto simp add: set_frame_def pc_sets\<close>)
  next
    case sleep
    let ?f' = "(frames s w)\<lparr>pc := InGetTaskWait\<rparr>"
    have s': "after_GetTask w (fst (GetTask [] q)) s
        = set_frame w ?f' (s\<lparr>pool := q\<lparr>waiting_count := waiting_count q + 1\<rparr>\<rparr>)"
      using sleep by (auto simp add: GetTask_once after_GetTask_def)
    show ?thesis unfolding s'
      by (rule invariant_update [OF assms(1,2), where f' = ?f'])
         (use at fl q in \<open>auto simp add: set_frame_def pc_sets\<close>)
  next
    case pop
    then obtain t0 rest where tr: "tasks q = t0 # rest" by (cases "tasks q") simp_all
    let ?f' = "(frames s w)\<lparr>pc := AtCheckNoTask, stealing_task := Some t0\<rparr>"
    have s': "after_GetTask w (fst (GetTask [] q)) s = set_frame w ?f' (s\<lparr>pool := q\<lparr>tasks := rest\<rparr>\<rparr>)"
      using pop tr by (simp add: GetTask_once after_GetTask_def)
    have "t0 \<in> set (tasks (pool s))" using tr q(1) by simp
    then have nq: "\<forall>u < num s. u \<noteq> w \<longrightarrow>
        \<not> (stealing_task (frames s u) = Some t0 \<and> pc (frames s u) \<in> active)"
      using queued_not_owned [OF assms(1)] by blast
    have tq: "tasks (pool s) = t0 # rest" using tr q(1) by simp
    show ?thesis unfolding s'
    proof (rule invariant_update [OF assms(1,2), where f' = ?f'])
      fix t assume "stealing_task ?f' = Some t \<and> pc ?f' \<in> active"
      then have "t = t0" by simp
      with nq show "(stealing_task (frames s w) = Some t \<and> pc (frames s w) \<in> active)
           \<or> (\<forall>u < num s. u \<noteq> w \<longrightarrow> \<not> (stealing_task (frames s u) = Some t \<and> pc (frames s u) \<in> active))"
        by blast
    qed (use at fl q tq in \<open>auto simp add: set_frame_def pc_sets\<close>)
  qed
qed

lemma Run_step_AtGetTask:
  assumes "invariant s" "w < num s" "pc (frames s w) = AtGetTask" "Run_step w a b s = Some s'"
  shows "invariant s'"
proof -
  have s': "s' = after_GetTask w (fst (GetTask [] (pool s))) s"
    using assms by (simp add: Run_step_def Let_def)
  show ?thesis unfolding s'
    by (rule after_GetTask_invariant [OF assms(1,2)]) (simp_all add: assms(3))
qed

lemma Run_step_InGetTaskWait:
  assumes "invariant s" "w < num s" "pc (frames s w) = InGetTaskWait" "Run_step w a b s = Some s'"
  shows "invariant s'"
proof -
  have s': "s' = after_GetTask w (fst (GetTask [] (GetTask_wake a b (pool s)))) s"
    using assms by (simp add: Run_step_def Let_def)
  show ?thesis unfolding s'
    by (rule after_GetTask_invariant [OF assms(1,2)]) (simp_all add: assms(3) GetTask_wake_def)
qed

lemma Run_step_invariant:
  assumes "invariant s" "w < num s" "Run_step w a b s = Some s'"
  shows "invariant s'"
proof (cases "pc (frames s w)")
  case Exited
  with assms(3) show ?thesis by (simp add: Run_step_def Let_def)
qed (use assms in \<open>blast intro: Run_step_AtGetTask Run_step_InGetTaskWait Run_step_AtCheckNoTask
    Run_step_AtLockRegister Run_step_AtIncOwn Run_step_AtPublish Run_step_AtUnlockRegister
    Run_step_AtRun Run_step_AtClear Run_step_AtLoopTest Run_step_AtLockFind Run_step_AtScan
    Run_step_AtFound Run_step_AtNotFound Run_step_AtUnlockFind Run_step_AtStealFrom
    Run_step_AtLockVictim Run_step_AtDecVictim Run_step_AtUnlockVictim Run_step_AtFinalizeVictim
    Run_step_AtLockOwn Run_step_AtDecOwn Run_step_AtUnlockOwn Run_step_AtFinalizeOwn\<close>)+

lemma invariant_env:
  assumes "invariant s"
    and "frames s' = frames s" "work_steal_lock s' = work_steal_lock s"
      "ref_count s' = ref_count s" "failure s' = failure s"
      "threads (pool s') = threads (pool s)" "steal_index (pool s') = steal_index (pool s)"
    and life: "\<And>t. int (count_list (tasks (pool s')) t) + int (finalized s' t)
          - (if t \<in> submitted s' then 1 else 0)
        = int (count_list (tasks (pool s)) t) + int (finalized s t)
          - (if t \<in> submitted s then 1 else 0)"
  shows "invariant s'"
proof -
  have n: "num s' = num s" using assms(6) by (simp add: num_def)
  from assms(1) have i: "failure s = None" "inv_lock s" "inv_count s" "inv_life s" "inv_slot s"
    "inv_found s" "inv_unique s" "inv_index s"
    unfolding invariant_def by blast+
  have "failure s' = None" using i(1) assms(5) by simp
  moreover have "inv_lock s'" using i(2) unfolding inv_lock_def n assms(2,3) .
  moreover have "inv_count s'" using i(3) unfolding inv_count_def n assms(2,4) .
  moreover have "inv_life s'"
    unfolding inv_life_def
  proof
    fix t
    from i(4) have "int (count_list (tasks (pool s)) t) + total (num s) (frames s) (pre_owner t)
           + (if 0 < ref_count s t then 1 else 0) + total (num s) (frames s) (pending t)
           + int (finalized s t)
         = (if t \<in> submitted s then 1 else 0)"
      unfolding inv_life_def by blast
    with life [of t]
    show "int (count_list (tasks (pool s')) t) + total (num s') (frames s') (pre_owner t)
           + (if 0 < ref_count s' t then 1 else 0) + total (num s') (frames s') (pending t)
           + int (finalized s' t)
         = (if t \<in> submitted s' then 1 else 0)"
      unfolding n assms(2,4) by linarith
  qed
  moreover have "inv_slot s'" using i(5) unfolding inv_slot_def n assms(2,6) .
  moreover have "inv_found s'" using i(6) unfolding inv_found_def n assms(2) .
  moreover have "inv_unique s'" using i(7) unfolding inv_unique_def n assms(2) .
  moreover have "inv_index s'" using i(8) unfolding inv_index_def n assms(7) .
  ultimately show ?thesis unfolding invariant_def by blast
qed

lemma system_step_invariant:
  assumes "invariant s" "system_step a s = Some s'"
  shows "invariant s'"
proof (cases a)
  case (Worker w ws we)
  with assms(2) have "w < num s" "Run_step w ws we s = Some s'"
    by (simp_all add: num_def split: if_splits)
  then show ?thesis by (rule Run_step_invariant [OF assms(1)])
next
  case (CallAddTask t0)
  with assms(2) have fresh: "t0 \<notin> submitted s"
    and s': "s' = s\<lparr>pool := (pool s)\<lparr>tasks := tasks (pool s) @ [t0]\<rparr>, submitted := insert t0 (submitted s)\<rparr>"
    by (simp_all add: AddTask_def Let_def split: if_splits)
  show ?thesis
    by (rule invariant_env [OF assms(1)]) (use fresh in \<open>auto simp add: s'\<close>)
next
  case (CallStartWorkers now)
  with assms(2) have s': "s' = s\<lparr>pool := fst (StartWorkers now (pool s))\<rparr>"
    by (simp split: if_splits)
  show ?thesis
    by (rule invariant_env [OF assms(1)]) (simp_all add: s' StartWorkers_def)
next
  case CallStopWorkers
  with assms(2) have s': "s' = s\<lparr>pool := StopWorkers (pool s)\<rparr>"
    by (simp split: if_splits)
  show ?thesis
    by (rule invariant_env [OF assms(1)]) (simp_all add: s' StopWorkers_def)
next
  case CallWaitTask
  show ?thesis
  proof (cases "started (pool s) \<and> tasks (pool s) \<noteq> []")
    case True
    then obtain t0 rest where tr: "tasks (pool s) = t0 # rest" by (cases "tasks (pool s)") simp_all
    with assms(2) CallWaitTask True
    have s': "s' = s\<lparr>pool := (pool s)\<lparr>tasks := rest\<rparr>,
        finalized := (finalized s)(t0 := Suc (finalized s t0))\<rparr>"
      by (simp add: TryGetTask_def TryGetTaskLocked_def split: if_splits)
    show ?thesis
      by (rule invariant_env [OF assms(1)]) (auto simp add: s' tr)
  next
    case False
    with assms(2) CallWaitTask have s': "s' = s\<lparr>pool := pool s\<rparr>"
      by (auto simp add: TryGetTask_def TryGetTaskLocked_def split: if_splits)
    show ?thesis
      by (rule invariant_env [OF assms(1)]) (simp_all add: s')
  qed
next
  case CallDelete
  with assms(2) have s': "s' = s\<lparr>pool := fst (ThreadPool_delete (pool s))\<rparr>"
    by (simp split: if_splits)
  show ?thesis
    by (rule invariant_env [OF assms(1)]) (simp_all add: s' ThreadPool_delete_def)
qed

lemma system_step_num:
  assumes "system_step a s = Some s'"
  shows "num s' = num s"
proof (cases a)
  case (Worker w ws we)
  with assms have r: "Run_step w ws we s = Some s'" by (simp split: if_splits)
  have g: "length (threads (pool (after_GetTask w (fst (GetTask [] q)) s))) = length (threads q)" for q
    by (simp add: GetTask_once after_GetTask_def set_frame_def)
  show ?thesis
  proof (cases "pc (frames s w)")
    case AtScan
    with r show ?thesis
      by (auto simp add: num_def Run_step_def Let_def set_frame_def FindTaskToStealFrom_body_def
          split: nat.splits option.splits sum.splits prod.splits if_splits)
  qed (use r in \<open>auto simp add: num_def Run_step_def Let_def set_frame_def lock_step_def
          unlock_step_def g GetTask_wake_def split: option.splits if_splits\<close>)
qed (use assms in \<open>auto simp add: num_def AddTask_def Let_def StartWorkers_def StopWorkers_def
       ThreadPool_delete_def TryGetTask_def TryGetTaskLocked_def
       split: if_splits list.splits\<close>)

lemma reachable_invariant:
  assumes "reachable n (s :: ('a, 'w::len) system)" "n < 2 ^ LENGTH('w)"
  shows "invariant s \<and> num s = n"
  using assms
proof (induction rule: reachable.induct)
  case (initial st0 twt0)
  then show ?case
    by (simp add: invariant_initial) (simp add: num_def initial_system_def WorkStealingThreadPool_new_def)
next
  case (step s a s')
  then have i: "invariant s" "num s = n" by simp_all
  from system_step_invariant [OF i(1) step.hyps(2)] system_step_num [OF step.hyps(2)] i(2)
  show ?case by simp
qed

lemma run_actions_reachable:
  "reachable n s \<Longrightarrow> run_actions as s = Some s' \<Longrightarrow> reachable n s'"
proof (induction as arbitrary: s)
  case Nil
  then show ?case by simp
next
  case (Cons a as)
  then show ?case by (auto split: option.splits intro: reachable.step)
qed


lemma state_after_reachable:
  assumes "run_actions (take k schedule) (initial_system 2 0 0 :: (nat, 64) system) \<noteq> None"
  shows "reachable 2 (state_after k)"
proof -
  from assms have "run_actions (take k schedule) (initial_system 2 0 0) = Some (state_after k)"
    by (simp add: state_after_def)
  with reachable.initial [of 2 0 0] show ?thesis by (rule run_actions_reachable)
qed


subsection \<open>WorkStealingWorker::Run\<close>

text \<open>
  C5.  In every state the system of work-stealing workers can reach (the number of
  workers fitting \<^verbatim>\<open>size_t\<close>), no \<^verbatim>\<open>CHECK\<close> has failed and no read was out of range,
  and for every task \<open>t\<close>: \<^verbatim>\<open>Finalize\<close> has been called on \<open>t\<close> at most once; once it has
  been called, the count of \<open>t\<close> is 0 and \<open>t\<close> is not queued; and when every worker is at
  \<^verbatim>\<open>GetTask\<close> or has exited, every submitted task that has left the queue has been
  finalised exactly once.  The decrement of a victim's count (line 206) and of the own
  task's count (line 218) is made by the holder of the lock and sets \<open>finalize\<close> exactly
  when the new count is 0; the next step releases the lock; the step after that, made
  without the lock, calls \<^verbatim>\<open>Finalize\<close> exactly when \<open>finalize\<close> is set, on a task whose
  count is 0 and which nobody has finalised.
\<close>

theorem Run_finalizes_exactly_once:
  fixes s :: "('a, 'w::len) system"
  assumes "reachable n s" "n < 2 ^ LENGTH('w)"
  shows "failure s = None
     \<and> finalized s t \<le> 1
     \<and> (finalized s t = 1 \<longrightarrow> ref_count s t = 0 \<and> t \<notin> set (tasks (pool s)))
     \<and> ((\<forall>w < n. pc (frames s w) \<in> {AtGetTask, InGetTaskWait, Exited})
          \<and> t \<in> submitted s \<and> t \<notin> set (tasks (pool s)) \<longrightarrow> finalized s t = 1)
     \<and> (w < n \<and> pc (frames s w) = AtDecVictim \<and> steal_from_task (frames s w) = Some t \<longrightarrow>
          work_steal_lock s = Some w
          \<and> Run_step w a b s
              = Some (set_frame w ((frames s w)\<lparr>pc := AtUnlockVictim, finalize := (ref_count s t - 1 = 0)\<rparr>)
                       (s\<lparr>ref_count := (ref_count s)(t := ref_count s t - 1)\<rparr>)))
     \<and> (w < n \<and> pc (frames s w) = AtDecOwn \<and> stealing_task (frames s w) = Some t \<longrightarrow>
          work_steal_lock s = Some w
          \<and> Run_step w a b s
              = Some (set_frame w ((frames s w)\<lparr>pc := AtUnlockOwn, finalize := (ref_count s t - 1 = 0)\<rparr>)
                       (s\<lparr>ref_count := (ref_count s)(t := ref_count s t - 1)\<rparr>)))
     \<and> (w < n \<and> pc (frames s w) = AtUnlockVictim \<longrightarrow>
          Run_step w a b s
            = Some (set_frame w ((frames s w)\<lparr>pc := AtFinalizeVictim\<rparr>) (s\<lparr>work_steal_lock := None\<rparr>)))
     \<and> (w < n \<and> pc (frames s w) = AtUnlockOwn \<longrightarrow>
          Run_step w a b s
            = Some (set_frame w ((frames s w)\<lparr>pc := AtFinalizeOwn\<rparr>) (s\<lparr>work_steal_lock := None\<rparr>)))
     \<and> (w < n \<and> pc (frames s w) = AtFinalizeVictim \<and> steal_from_task (frames s w) = Some t \<longrightarrow>
          work_steal_lock s \<noteq> Some w
          \<and> (finalize (frames s w) \<longrightarrow> ref_count s t = 0 \<and> finalized s t = 0)
          \<and> Run_step w a b s
              = Some (set_frame w ((frames s w)\<lparr>pc := AtLoopTest\<rparr>)
                       (if finalize (frames s w)
                        then s\<lparr>finalized := (finalized s)(t := Suc (finalized s t))\<rparr> else s)))
     \<and> (w < n \<and> pc (frames s w) = AtFinalizeOwn \<and> stealing_task (frames s w) = Some t \<longrightarrow>
          work_steal_lock s \<noteq> Some w
          \<and> (finalize (frames s w) \<longrightarrow> ref_count s t = 0 \<and> finalized s t = 0)
          \<and> Run_step w a b s
              = Some (set_frame w ((frames s w)\<lparr>pc := AtGetTask\<rparr>)
                       (if finalize (frames s w)
                        then s\<lparr>finalized := (finalized s)(t := Suc (finalized s t))\<rparr> else s)))"
proof -
  from reachable_invariant [OF assms] have inv: "invariant s" and n: "num s = n" by simp_all
  have fl: "failure s = None" using inv unfolding invariant_def by blast
  have il: "inv_lock s" using inv unfolding invariant_def by blast
  have tp: "0 \<le> total (num s) (frames s) (pre_owner t)"
    and tq: "0 \<le> total (num s) (frames s) (pending t)" by simp_all
  have r0: "0 \<le> (if 0 < ref_count s t then 1 else 0 :: int)" by simp
  have c0: "0 \<le> int (count_list (tasks (pool s)) t)" by simp
  have le1: "finalized s t \<le> 1"
    using life_le [OF inv, of t] tp tq r0 c0 by linarith
  have finished: "ref_count s t = 0 \<and> t \<notin> set (tasks (pool s))" if f1: "finalized s t = 1"
  proof -
    have fi: "int (finalized s t) = 1" using f1 by simp
    have "\<not> 0 < ref_count s t"
    proof
      assume "0 < ref_count s t"
      from life_pos [OF inv this] tp tq c0 fi show False by linarith
    qed
    with rc_nonneg [OF inv, of t] have "ref_count s t = 0" by simp
    moreover from life_le [OF inv, of t] tp tq r0 fi
    have "int (count_list (tasks (pool s)) t) \<le> 0" by linarith
    then have "t \<notin> set (tasks (pool s))" by (simp add: count_list_0_iff)
    ultimately show ?thesis by simp
  qed
  have quiet: "finalized s t = 1"
    if idle: "\<forall>w < n. pc (frames s w) \<in> {AtGetTask, InGetTaskWait, Exited}"
      and sub: "t \<in> submitted s" and nq: "t \<notin> set (tasks (pool s))"
  proof -
    have z: "total (num s) (frames s) f = 0" if "\<And>u. u < n \<Longrightarrow> f (frames s u) = 0" for f
      unfolding total_def n by (rule sum.neutral) (simp add: that)
    have h: "total (num s) (frames s) (holds t) = 0"
      by (rule z) (use idle in \<open>auto simp: holds_def own_registered_def\<close>)
    have p: "total (num s) (frames s) (pre_owner t) = 0"
      by (rule z) (use idle in \<open>auto simp: pre_owner_def\<close>)
    have q: "total (num s) (frames s) (pending t) = 0"
      by (rule z) (use idle in \<open>auto simp: pending_def\<close>)
    have "ref_count s t = 0" using inv h unfolding invariant_def inv_count_def by simp
    moreover have "count_list (tasks (pool s)) t = 0" using nq by (simp add: count_list_0_iff)
    ultimately show ?thesis using life_eq [OF inv, of t] p q sub by simp
  qed
  have flagged: "ref_count s t = 0 \<and> finalized s t = 0"
    if w: "w < n" and pend: "pending t (frames s w) = 1"
  proof -
    have "pending t (frames s w) \<le> total (num s) (frames s) (pending t)"
      by (rule total_ge) (simp_all add: w n)
    with pend have q1: "1 \<le> total (num s) (frames s) (pending t)" by simp
    have "\<not> 0 < ref_count s t"
    proof
      assume "0 < ref_count s t"
      from life_pos [OF inv this] tp q1 c0 show False by linarith
    qed
    with rc_nonneg [OF inv, of t] have "ref_count s t = 0" by simp
    moreover from life_le [OF inv, of t] tp q1 r0 c0 have "finalized s t = 0" by linarith
    ultimately show ?thesis by simp
  qed
  have held: "work_steal_lock s = Some w" if "w < n" "pc (frames s w) \<in> locked"
    using that il n unfolding inv_lock_def by blast
  have free: "work_steal_lock s \<noteq> Some w" if "pc (frames s w) \<notin> locked"
    using that il unfolding inv_lock_def by blast
  show ?thesis
    apply (intro conjI impI)
    subgoal by (rule fl)
    subgoal by (rule le1)
    subgoal using finished by blast
    subgoal using finished by blast
    subgoal using quiet by blast
    subgoal by (rule held) (simp_all add: locked_def)
    subgoal by (simp add: Run_step_def Let_def)
    subgoal by (rule held) (simp_all add: locked_def)
    subgoal by (simp add: Run_step_def Let_def)
    subgoal by (simp add: Run_step_def Let_def unlock_step_def)
    subgoal by (simp add: Run_step_def Let_def unlock_step_def)
    subgoal by (rule free) (simp add: locked_def)
    subgoal using flagged by (simp add: pending_def)
    subgoal using flagged by (simp add: pending_def)
    subgoal by (simp add: Run_step_def Let_def)
    subgoal by (rule free) (simp add: locked_def)
    subgoal using flagged by (simp add: pending_def)
    subgoal using flagged by (simp add: pending_def)
    subgoal by (simp add: Run_step_def Let_def)
    done
qed

theorem Run_finalizes_exactly_once_witness:
  "reachable 2 (state_after 50)
   \<and> finalized (state_after 50) 1 = 1 \<and> finalized (state_after 50) 2 = 1
   \<and> ref_count (state_after 50) 1 = 0
   \<and> work_steal_lock (state_after 37) = Some 1
   \<and> pc (frames (the (Run_step 1 0 0 (state_after 38))) 1) = AtFinalizeVictim
   \<and> work_steal_lock (the (Run_step 1 0 0 (state_after 38))) = None
   \<and> work_steal_lock (state_after 39) \<noteq> Some 1
   \<and> ref_count (state_after 39) 1 = 0 \<and> finalized (state_after 39) 1 = 0
   \<and> work_steal_lock (state_after 32) = Some 0
   \<and> pc (frames (the (Run_step 0 0 0 (state_after 33))) 0) = AtFinalizeOwn
   \<and> work_steal_lock (the (Run_step 0 0 0 (state_after 33))) = None
   \<and> work_steal_lock (state_after 49) \<noteq> Some 1
   \<and> ref_count (state_after 49) 2 = 0 \<and> finalized (state_after 49) 2 = 0"
proof -
  have n: "(2::nat) < 2 ^ LENGTH(64)" by simp
  have r50: "reachable 2 (state_after 50)" by (rule state_after_reachable) code_simp
  have r37: "reachable 2 (state_after 37)" by (rule state_after_reachable) code_simp
  have r39: "reachable 2 (state_after 39)" by (rule state_after_reachable) code_simp
  have r32: "reachable 2 (state_after 32)" by (rule state_after_reachable) code_simp
  have r49: "reachable 2 (state_after 49)" by (rule state_after_reachable) code_simp
  have r38: "reachable 2 (state_after 38)" by (rule state_after_reachable) code_simp
  have r33: "reachable 2 (state_after 33)" by (rule state_after_reachable) code_simp
  have p0: "pc (frames (state_after 50) 0) = AtGetTask" by code_simp
  have p1: "pc (frames (state_after 50) 1) = AtGetTask" by code_simp
  have idle: "\<forall>w < 2. pc (frames (state_after 50) w) \<in> {AtGetTask, InGetTaskWait, Exited}"
    using p0 p1 by (auto simp add: less_Suc_eq numeral_2_eq_2)
  have q1: "1 \<in> submitted (state_after 50) \<and> 1 \<notin> set (tasks (pool (state_after 50)))" by code_simp
  have q2: "2 \<in> submitted (state_after 50) \<and> 2 \<notin> set (tasks (pool (state_after 50)))" by code_simp
  from Run_finalizes_exactly_once [OF r50 n, of 1] idle q1
  have f1: "finalized (state_after 50) 1 = 1 \<and> ref_count (state_after 50) 1 = 0" by blast
  from Run_finalizes_exactly_once [OF r50 n, of 2] idle q2
  have f2: "finalized (state_after 50) 2 = 1" by blast
  have h37: "(1::nat) < 2 \<and> pc (frames (state_after 37) 1) = AtDecVictim
      \<and> steal_from_task (frames (state_after 37) 1) = Some 1" by code_simp
  from Run_finalizes_exactly_once [OF r37 n, of 1 1] h37
  have l37: "work_steal_lock (state_after 37) = Some 1" by blast
  have h39: "(1::nat) < 2 \<and> pc (frames (state_after 39) 1) = AtFinalizeVictim
      \<and> steal_from_task (frames (state_after 39) 1) = Some 1 \<and> finalize (frames (state_after 39) 1)"
    by code_simp
  from Run_finalizes_exactly_once [OF r39 n, of 1 1] h39
  have l39: "work_steal_lock (state_after 39) \<noteq> Some 1
      \<and> ref_count (state_after 39) 1 = 0 \<and> finalized (state_after 39) 1 = 0" by blast
  have h32: "(0::nat) < 2 \<and> pc (frames (state_after 32) 0) = AtDecOwn
      \<and> stealing_task (frames (state_after 32) 0) = Some 1" by code_simp
  from Run_finalizes_exactly_once [OF r32 n, of 1 0] h32
  have l32: "work_steal_lock (state_after 32) = Some 0" by blast
  have h49: "(1::nat) < 2 \<and> pc (frames (state_after 49) 1) = AtFinalizeOwn
      \<and> stealing_task (frames (state_after 49) 1) = Some 2 \<and> finalize (frames (state_after 49) 1)"
    by code_simp
  from Run_finalizes_exactly_once [OF r49 n, of 2 1] h49
  have l49: "work_steal_lock (state_after 49) \<noteq> Some 1
      \<and> ref_count (state_after 49) 2 = 0 \<and> finalized (state_after 49) 2 = 0" by blast
  have h38: "(1::nat) < 2 \<and> pc (frames (state_after 38) 1) = AtUnlockVictim" by code_simp
  from Run_finalizes_exactly_once [OF r38 n, of _ 1 0 0] h38
  have "Run_step 1 0 0 (state_after 38)
      = Some (set_frame 1 ((frames (state_after 38) 1)\<lparr>pc := AtFinalizeVictim\<rparr>)
               ((state_after 38)\<lparr>work_steal_lock := None\<rparr>))" by blast
  then have l38: "pc (frames (the (Run_step 1 0 0 (state_after 38))) 1) = AtFinalizeVictim
      \<and> work_steal_lock (the (Run_step 1 0 0 (state_after 38))) = None"
    by (simp add: set_frame_def)
  have h33: "(0::nat) < 2 \<and> pc (frames (state_after 33) 0) = AtUnlockOwn" by code_simp
  from Run_finalizes_exactly_once [OF r33 n, of _ 0 0 0] h33
  have "Run_step 0 0 0 (state_after 33)
      = Some (set_frame 0 ((frames (state_after 33) 0)\<lparr>pc := AtFinalizeOwn\<rparr>)
               ((state_after 33)\<lparr>work_steal_lock := None\<rparr>))" by blast
  then have l33: "pc (frames (the (Run_step 0 0 0 (state_after 33))) 0) = AtFinalizeOwn
      \<and> work_steal_lock (the (Run_step 0 0 0 (state_after 33))) = None"
    by (simp add: set_frame_def)
  from r50 f1 f2 l37 l38 l39 l32 l33 l49 show ?thesis by blast
qed

end
